theory Spec2Isabelle
  imports Complex_Main "HOL-Library.Sublist"
begin

section \<open>JavaScript strings and numbers, as far as server.ts uses them\<close>

text \<open>
  A JavaScript string is modelled as a \<open>string\<close>: one \<open>char\<close> per UTF-16 code unit,
  for texts whose code units are below 256. A JavaScript number is an IEEE double.
  The numbers that the time arithmetic of server.ts produces are integers, the two
  infinities and NaN, so \<open>jsnum\<close> has exactly these; the sign of zero is not kept (no
  operation of server.ts observes it). \<open>Fin i\<close> is a double when \<open>i\<close> is representable,
  as every result of \<open>round_double\<close> is.
\<close>

datatype jsnum = Fin int | PosInf | NegInf | NaN

definition code_unit :: "char \<Rightarrow> nat" where
  "code_unit c = of_char c"

definition is_digit :: "char \<Rightarrow> bool" where
  "is_digit c = (48 \<le> code_unit c \<and> code_unit c \<le> 57)"

definition digit_val :: "char \<Rightarrow> nat" where
  "digit_val c = code_unit c - 48"

text \<open>White space as \<open>String.prototype.trim\<close> and \<open>parseInt\<close> skip it: TAB, LF, VT, FF,
  CR, SP and NBSP (the code units below 256 of WhiteSpace and LineTerminator).\<close>

definition is_space :: "char \<Rightarrow> bool" where
  "is_space c = (code_unit c \<in> {9, 10, 11, 12, 13, 32, 160})"

definition trim :: "string \<Rightarrow> string" where
  "trim s = rev (dropWhile is_space (rev (dropWhile is_space s)))"

text \<open>\<open>s.split(sep)\<close> for a separator of one character: never empty, one more part
  than there are separators.\<close>

fun split_on :: "char \<Rightarrow> string \<Rightarrow> string list" where
  "split_on sep [] = [[]]"
| "split_on sep (c # cs) =
     (if c = sep then [] # split_on sep cs
      else (case split_on sep cs of
              [] \<Rightarrow> [[c]]
            | p # ps \<Rightarrow> (c # p) # ps))"

subsection \<open>Rounding an integer to a double\<close>

fun bit_length :: "nat \<Rightarrow> nat" where
  "bit_length n = (if n = 0 then 0 else Suc (bit_length (n div 2)))"

declare bit_length.simps [simp del]

text \<open>Round to nearest, ties to even, with a 53-bit significand; a result of
  \<open>2 ^ 1024\<close> or more overflows. \<open>round_mag\<close> returns \<open>None\<close> for the overflow.\<close>

definition round_mag :: "nat \<Rightarrow> nat option" where
  "round_mag n =
     (if n < 2 ^ 53 then Some n
      else (let e = bit_length n - 53;
                q = n div 2 ^ e;
                r = n mod 2 ^ e;
                half = 2 ^ (e - 1);
                q' = (if half < r \<or> (r = half \<and> odd q) then q + 1 else q);
                v = q' * 2 ^ e
            in if 2 ^ 1024 \<le> v then None else Some v))"

definition round_double :: "int \<Rightarrow> jsnum" where
  "round_double i =
     (case round_mag (nat \<bar>i\<bar>) of
        None \<Rightarrow> (if i < 0 then NegInf else PosInf)
      | Some m \<Rightarrow> Fin (if i < 0 then - int m else int m))"

subsection \<open>Arithmetic and comparison of doubles\<close>

fun js_mul :: "jsnum \<Rightarrow> jsnum \<Rightarrow> jsnum" where
  "js_mul (Fin a) (Fin b) = round_double (a * b)"
| "js_mul NaN _ = NaN"
| "js_mul _ NaN = NaN"
| "js_mul PosInf (Fin b) = (if b = 0 then NaN else if 0 < b then PosInf else NegInf)"
| "js_mul NegInf (Fin b) = (if b = 0 then NaN else if 0 < b then NegInf else PosInf)"
| "js_mul (Fin a) PosInf = (if a = 0 then NaN else if 0 < a then PosInf else NegInf)"
| "js_mul (Fin a) NegInf = (if a = 0 then NaN else if 0 < a then NegInf else PosInf)"
| "js_mul PosInf PosInf = PosInf"
| "js_mul NegInf NegInf = PosInf"
| "js_mul PosInf NegInf = NegInf"
| "js_mul NegInf PosInf = NegInf"

fun js_add :: "jsnum \<Rightarrow> jsnum \<Rightarrow> jsnum" where
  "js_add (Fin a) (Fin b) = round_double (a + b)"
| "js_add NaN _ = NaN"
| "js_add _ NaN = NaN"
| "js_add PosInf NegInf = NaN"
| "js_add NegInf PosInf = NaN"
| "js_add PosInf _ = PosInf"
| "js_add NegInf _ = NegInf"
| "js_add _ PosInf = PosInf"
| "js_add _ NegInf = NegInf"

fun js_neg :: "jsnum \<Rightarrow> jsnum" where
  "js_neg (Fin a) = Fin (- a)"
| "js_neg PosInf = NegInf"
| "js_neg NegInf = PosInf"
| "js_neg NaN = NaN"

definition js_sub :: "jsnum \<Rightarrow> jsnum \<Rightarrow> jsnum" where
  "js_sub a b = js_add a (js_neg b)"

text \<open>\<open>a < b\<close> on doubles; every comparison with NaN is false.\<close>

fun js_lt :: "jsnum \<Rightarrow> jsnum \<Rightarrow> bool" where
  "js_lt NaN _ = False"
| "js_lt _ NaN = False"
| "js_lt (Fin a) (Fin b) = (a < b)"
| "js_lt _ NegInf = False"
| "js_lt PosInf _ = False"
| "js_lt NegInf _ = True"
| "js_lt _ PosInf = True"

fun js_eq :: "jsnum \<Rightarrow> jsnum \<Rightarrow> bool" where
  "js_eq NaN _ = False"
| "js_eq _ NaN = False"
| "js_eq a b = (a = b)"

definition js_gt :: "jsnum \<Rightarrow> jsnum \<Rightarrow> bool" where
  "js_gt a b = js_lt b a"

definition js_ge :: "jsnum \<Rightarrow> jsnum \<Rightarrow> bool" where
  "js_ge a b = (js_lt b a \<or> js_eq a b)"

subsection \<open>parseInt\<close>

text \<open>
  \<open>parseInt(s)\<close> with no radix: skip leading white space, take an optional sign, take
  the prefix \<open>0x\<close>/\<open>0X\<close> as radix 16, read the longest prefix of digits of the radix, and
  give NaN when there is none. The value read is rounded to a double (the standard
  lets an implementation round a decimal text of more than 20 digits less exactly).
\<close>

definition is_hex_digit :: "char \<Rightarrow> bool" where
  "is_hex_digit c =
     (is_digit c \<or> (65 \<le> code_unit c \<and> code_unit c \<le> 70)
                 \<or> (97 \<le> code_unit c \<and> code_unit c \<le> 102))"

definition hex_val :: "char \<Rightarrow> nat" where
  "hex_val c =
     (if is_digit c then code_unit c - 48
      else if code_unit c \<le> 70 then code_unit c - 55
      else code_unit c - 87)"

definition digits_value :: "nat \<Rightarrow> (char \<Rightarrow> nat) \<Rightarrow> string \<Rightarrow> nat" where
  "digits_value radix val ds = foldl (\<lambda>acc c. acc * radix + val c) 0 ds"

definition parse_magnitude :: "string \<Rightarrow> nat option" where
  "parse_magnitude s =
     (if take 2 s = ''0x'' \<or> take 2 s = ''0X''
      then (let z = takeWhile is_hex_digit (drop 2 s)
            in if z = [] then None else Some (digits_value 16 hex_val z))
      else (let z = takeWhile is_digit s
            in if z = [] then None else Some (digits_value 10 digit_val z)))"

definition parseInt :: "string \<Rightarrow> jsnum" where
  "parseInt str =
     (let s = dropWhile is_space str;
          negative = (take 1 s = ''-'');
          s' = (if take 1 s = ''-'' \<or> take 1 s = ''+'' then drop 1 s else s)
      in case parse_magnitude s' of
           None \<Rightarrow> NaN
         | Some m \<Rightarrow> round_double (if negative then - int m else int m))"

section \<open>Utilities\<close>

datatype js_error = Error string

text \<open>\<open>timeToSeconds\<close>: \<open>Inl\<close> is the thrown \<open>Error\<close>.\<close>

definition timeToSeconds :: "string \<Rightarrow> js_error + jsnum" where
  "timeToSeconds timeStr =
     (let parts = split_on CHR '':'' timeStr in
      if length parts = 2 then
        Inr (js_add (js_mul (parseInt (parts ! 0)) (Fin 60)) (parseInt (parts ! 1)))
      else if length parts = 3 then
        Inr (js_add (js_add (js_mul (parseInt (parts ! 0)) (Fin 3600))
                            (js_mul (parseInt (parts ! 1)) (Fin 60)))
                    (parseInt (parts ! 2)))
      else Inl (Error ''Invalid time format''))"

text \<open>\<open>Number.prototype.toString\<close> on a non-negative integer below \<open>10 ^ 21\<close>: its decimal
  digits.\<close>

definition digit_char :: "nat \<Rightarrow> char" where
  "digit_char d = ''0123456789'' ! d"

fun decimal_digits :: "nat \<Rightarrow> string" where
  "decimal_digits n =
     (if n < 10 then [digit_char n]
      else decimal_digits (n div 10) @ [digit_char (n mod 10)])"

declare decimal_digits.simps [simp del]

definition padStart :: "nat \<Rightarrow> char \<Rightarrow> string \<Rightarrow> string" where
  "padStart n c s = replicate (n - length s) c @ s"

text \<open>
  \<open>formatSeconds\<close> on a whole number of seconds below \<open>2 ^ 53\<close>: there the quotients
  \<open>seconds / 3600\<close> and \<open>(seconds % 3600) / 60\<close>, rounded to doubles and then floored,
  are the integer quotients.
\<close>

definition formatSeconds :: "nat \<Rightarrow> string" where
  "formatSeconds seconds =
     (let hours = seconds div 3600;
          minutes = (seconds mod 3600) div 60;
          secs = seconds mod 60
      in if 0 < hours then
           padStart 2 CHR ''0'' (decimal_digits hours) @ '':'' @
           padStart 2 CHR ''0'' (decimal_digits minutes) @ '':'' @
           padStart 2 CHR ''0'' (decimal_digits secs)
         else
           padStart 2 CHR ''0'' (decimal_digits minutes) @ '':'' @
           padStart 2 CHR ''0'' (decimal_digits secs))"

text \<open>\<open>generateId\<close>: the clock reading (\<open>toISOString\<close>) and the random hexadecimal
  suffix are read from the environment.\<close>

definition generateId :: "string \<Rightarrow> string \<Rightarrow> string" where
  "generateId isoString random =
     (let timestamp = take 15 (filter (\<lambda>c. c \<notin> {CHR ''-'', CHR '':'', CHR ''T''}) isoString)
      in ''clip_'' @ timestamp @ ''_'' @ random)"

section \<open>Validation schema\<close>

text \<open>The pattern \<open>^\d+:[0-5]\d(:[0-5]\d)?$\<close>. The separator is no digit, so \<open>\d+\<close> is
  the whole leading run of digits.\<close>

definition is_0_to_5 :: "char \<Rightarrow> bool" where
  "is_0_to_5 c = (48 \<le> code_unit c \<and> code_unit c \<le> 53)"

definition colon_two_digits :: "string \<Rightarrow> bool" where
  "colon_two_digits t =
     (length t = 3 \<and> t ! 0 = CHR '':'' \<and> is_0_to_5 (t ! 1) \<and> is_digit (t ! 2))"

definition time_pattern :: "string \<Rightarrow> bool" where
  "time_pattern s =
     (let h = takeWhile is_digit s; rest = dropWhile is_digit s
      in h \<noteq> [] \<and>
         (colon_two_digits rest \<or>
          (colon_two_digits (take 3 rest) \<and> colon_two_digits (drop 3 rest))))"

text \<open>
  The body of a request as \<open>req.json()\<close> gives it: the call throws, or it yields a value
  whose three fields are strings or not (\<open>None\<close>: absent or of another type; a value
  that is no object has none of them).
\<close>

record clip_body =
  url :: "string option"
  start_time :: "string option"
  end_time :: "string option"

datatype request_json = JsonThrows string | JsonValue clip_body

record clip_request =
  req_url :: string
  req_start_time :: string
  req_end_time :: string

text \<open>\<open>ClipRequestSchema.safeParse\<close>. The URL check of the validation library is the
  parameter \<open>url_ok\<close>.\<close>

definition ClipRequestSchema :: "(string \<Rightarrow> bool) \<Rightarrow> clip_body \<Rightarrow> clip_request option" where
  "ClipRequestSchema url_ok b =
     (case (url b, start_time b, end_time b) of
        (Some u, Some st, Some et) \<Rightarrow>
          if url_ok u \<and> time_pattern st \<and> time_pattern et
          then Some \<lparr>req_url = u, req_start_time = st, req_end_time = et\<rparr>
          else None
      | _ \<Rightarrow> None)"

section \<open>In-memory store\<close>

datatype status = downloading | processing | completed | error

record DownloadProgress =
  status :: status
  progress :: int
  message :: string
  filename :: "string option"
  download_url :: "string option"

text \<open>A connection: its identity and the \<open>id\<close> query parameter of \<open>ws.data.url\<close>
  (\<open>None\<close> when the parameter is absent).\<close>

record ServerWebSocket =
  conn :: nat
  id_param :: "string option"

text \<open>A JavaScript \<open>Set\<close>: its elements in insertion order, each once.\<close>

typedef 'a js_set = "{xs :: 'a list. distinct xs}"
  morphisms set_values Abs_js_set
  by (rule exI [of _ "[]"]) simp

setup_lifting type_definition_js_set

lift_definition set_empty :: "'a js_set" is "[]"
  by simp

lift_definition set_add :: "'a \<Rightarrow> 'a js_set \<Rightarrow> 'a js_set"
  is "\<lambda>x xs. if x \<in> set xs then xs else xs @ [x]"
  by simp

lift_definition set_delete :: "'a \<Rightarrow> 'a js_set \<Rightarrow> 'a js_set"
  is "\<lambda>x xs. removeAll x xs"
  by (simp add: distinct_removeAll)

definition set_has :: "'a \<Rightarrow> 'a js_set \<Rightarrow> bool" where
  "set_has x S = (x \<in> set (set_values S))"

record progress_message =
  msg_type :: string
  msg_download_id :: string
  msg_data :: DownloadProgress

text \<open>
  The state of the server process. \<open>downloadProgress\<close> and \<open>clients\<close> are the two maps
  of server.ts; \<open>ws_open\<close> tells which connections have \<open>readyState === OPEN\<close>;
  \<open>generated\<close> counts the calls of \<open>generateId\<close>. Two histories are kept for
  stating properties: \<open>writes\<close>, every \<open>downloadProgress.set\<close> in order, and \<open>sent\<close>,
  every \<open>ws.send\<close> in order.
\<close>

record server =
  downloadProgress :: "string \<rightharpoonup> DownloadProgress"
  clients :: "string \<rightharpoonup> ServerWebSocket js_set"
  ws_open :: "ServerWebSocket \<Rightarrow> bool"
  generated :: nat
  writes :: "(string \<times> DownloadProgress) list"
  sent :: "(ServerWebSocket \<times> progress_message) list"

definition store_set :: "string \<Rightarrow> DownloadProgress \<Rightarrow> server \<Rightarrow> server" where
  "store_set downloadId p s =
     s\<lparr>downloadProgress := (downloadProgress s)(downloadId \<mapsto> p),
       writes := writes s @ [(downloadId, p)]\<rparr>"

definition ws_send :: "ServerWebSocket \<Rightarrow> progress_message \<Rightarrow> server \<Rightarrow> server" where
  "ws_send ws m s = s\<lparr>sent := sent s @ [(ws, m)]\<rparr>"

text \<open>What a connection has been sent so far.\<close>

definition inbox :: "server \<Rightarrow> ServerWebSocket \<Rightarrow> progress_message list" where
  "inbox s ws = map snd (filter (\<lambda>e. fst e = ws) (sent s))"

section \<open>WebSocket helpers\<close>

definition broadcastProgress :: "string \<Rightarrow> server \<Rightarrow> server" where
  "broadcastProgress downloadId s =
     (case downloadProgress s downloadId of
        None \<Rightarrow> s
      | Some p \<Rightarrow>
          (case clients s downloadId of
             None \<Rightarrow> s
           | Some clientSet \<Rightarrow>
               (let m = \<lparr>msg_type = ''progress'', msg_download_id = downloadId, msg_data = p\<rparr>
                in foldl (\<lambda>s' ws. if ws_open s' ws then ws_send ws m s' else s')
                     s (set_values clientSet))))"

text \<open>The \<open>open\<close> and \<open>close\<close> handlers of the WebSocket server; \<open>if (downloadId)\<close>
  is false for \<open>null\<close> and for the empty string.\<close>

definition websocket_open :: "ServerWebSocket \<Rightarrow> server \<Rightarrow> server" where
  "websocket_open ws s =
     (case id_param ws of
        None \<Rightarrow> s
      | Some downloadId \<Rightarrow>
          if downloadId = [] then s
          else (let s1 = (if clients s downloadId = None
                          then s\<lparr>clients := (clients s)(downloadId \<mapsto> set_empty)\<rparr> else s)
                in case clients s1 downloadId of
                     None \<Rightarrow> s1
                   | Some cs \<Rightarrow> s1\<lparr>clients := (clients s1)(downloadId \<mapsto> set_add ws cs)\<rparr>))"

definition websocket_close :: "ServerWebSocket \<Rightarrow> server \<Rightarrow> server" where
  "websocket_close ws s =
     (case id_param ws of
        None \<Rightarrow> s
      | Some downloadId \<Rightarrow>
          if downloadId = [] then s
          else (case clients s downloadId of
                  None \<Rightarrow> s
                | Some cs \<Rightarrow> s\<lparr>clients := (clients s)(downloadId \<mapsto> set_delete ws cs)\<rparr>))"

section \<open>External processes\<close>

text \<open>
  How a child process ends: its \<open>close\<close> event with the exit code (\<open>None\<close> is \<open>null\<close>,
  a process ended by a signal), or its \<open>error\<close> event (it could not be started) with
  the message of the error. A \<open>close\<close> that follows an \<open>error\<close> carries a code other
  than 0 and finds the promise settled.
\<close>

datatype proc_end = Closed "int option" | ProcError string

text \<open>\<open>${code}\<close> in a template string.\<close>

definition code_text :: "int option \<Rightarrow> string" where
  "code_text code =
     (case code of
        None \<Rightarrow> ''null''
      | Some i \<Rightarrow> if i < 0 then ''-'' @ decimal_digits (nat (- i)) else decimal_digits (nat i))"

text \<open>
  The pattern \<open>(\d+\.?\d*)%\<close> at the start of a text: the text of its group when it
  matches there. The group is one or more digits, a point or none, and digits; every
  way of matching the pattern at one place takes the same characters.
\<close>

definition percent_at :: "string \<Rightarrow> string option" where
  "percent_at s =
     (let d1 = takeWhile is_digit s;
          r1 = dropWhile is_digit s;
          point = (take 1 r1 = ''.'');
          r2 = (if point then drop 1 r1 else r1);
          d2 = takeWhile is_digit r2;
          r3 = dropWhile is_digit r2
      in if d1 \<noteq> [] \<and> take 1 r3 = ''%''
         then Some (d1 @ (if point then ''.'' else []) @ d2) else None)"

text \<open>\<open>line.match(/(\d+\.?\d*)%/)\<close>: the group of the leftmost match, if there is one.\<close>

fun find_percent :: "string \<Rightarrow> string option" where
  "find_percent [] = None"
| "find_percent (c # cs) =
     (case percent_at (c # cs) of
        Some m \<Rightarrow> Some m
      | None \<Rightarrow> find_percent cs)"

declare find_percent.simps [simp del]

text \<open>
  The number that \<open>parseFloat\<close> gives for a matched text: a finite double, kept as the
  rational it is, or Infinity (a percentage with more than 308 digits).
\<close>

datatype percent = Percent rat | PercentInf

text \<open>
  Two functions of the JavaScript runtime are parameters of the model: \<open>parseFloat\<close> on
  the texts that the pattern matches, and \<open>toFixed1\<close>, which is \<open>n.toFixed(1)\<close>.
\<close>

record number_lib =
  parseFloat :: "string \<Rightarrow> percent"
  toFixed1 :: "percent \<Rightarrow> string"

text \<open>\<open>Math.min(Math.floor(percent * 0.5), 50)\<close>; halving a double is exact.\<close>

definition download_progress :: "percent \<Rightarrow> int" where
  "download_progress p =
     (case p of Percent r \<Rightarrow> min \<lfloor>r * (1 / 2)\<rfloor> 50 | PercentInf \<Rightarrow> 50)"

text \<open>The handler of \<open>data\<close> on the error stream, for one chunk of the stream.\<close>

definition on_stderr_data :: "number_lib \<Rightarrow> string \<Rightarrow> string \<Rightarrow> server \<Rightarrow> server" where
  "on_stderr_data lib downloadId line s =
     (case find_percent line of
        None \<Rightarrow> s
      | Some m \<Rightarrow>
          (let p = parseFloat lib m in
           broadcastProgress downloadId
             (store_set downloadId
                \<lparr>status = downloading, progress = download_progress p,
                 message = ''Downloading... '' @ toFixed1 lib p @ ''%'',
                 filename = None, download_url = None\<rparr> s)))"

text \<open>The handler of \<open>close\<close>: \<open>Inr ()\<close> is \<open>resolve()\<close>, \<open>Inl\<close> is \<open>reject\<close>.\<close>

definition on_download_close :: "string \<Rightarrow> int option \<Rightarrow> server \<Rightarrow> (js_error + unit) \<times> server" where
  "on_download_close downloadId code s =
     (if code = Some 0 then
        (Inr (),
         broadcastProgress downloadId
           (store_set downloadId
              \<lparr>status = processing, progress = 50, message = ''Processing video...'',
               filename = None, download_url = None\<rparr> s))
      else (Inl (Error (''Download failed with code '' @ code_text code)), s))"

text \<open>\<open>runYTDLPWithProgress\<close> on a run of the downloader: the chunks of its error stream
  in order, then its end.\<close>

definition runYTDLPWithProgress ::
  "number_lib \<Rightarrow> string \<Rightarrow> string list \<Rightarrow> proc_end \<Rightarrow> server
     \<Rightarrow> (js_error + unit) \<times> server" where
  "runYTDLPWithProgress lib downloadId chunks ending s =
     (let s1 = foldl (\<lambda>s' chunk. on_stderr_data lib downloadId chunk s') s chunks
      in case ending of
           Closed code \<Rightarrow> on_download_close downloadId code s1
         | ProcError m \<Rightarrow> (Inl (Error m), s1))"

text \<open>
  \<open>runFFmpeg\<close> on the ends of the first attempt and of the retry with re-encoding. The
  retry process has a \<open>close\<close> listener only: when it cannot be started the promise is
  never settled, which is the result \<open>None\<close>.
\<close>

definition runFFmpeg :: "proc_end \<Rightarrow> proc_end \<Rightarrow> (js_error + unit) option" where
  "runFFmpeg first retry =
     (case first of
        ProcError m \<Rightarrow> Some (Inl (Error m))
      | Closed code \<Rightarrow>
          if code = Some 0 then Some (Inr ())
          else (case retry of
                  Closed code2 \<Rightarrow>
                    if code2 = Some 0 then Some (Inr ())
                    else Some (Inl (Error (''FFmpeg failed with code '' @ code_text code2)))
                | ProcError m \<Rightarrow> None))"

section \<open>The clip job\<close>

text \<open>What the background function of \<open>handleDownloadClip\<close> closes over.\<close>

record clip_job =
  job_id :: string
  job_url :: string
  startSeconds :: jsnum
  endSeconds :: jsnum

text \<open>
  What the external tools do during one job. The chunks of the error stream of the
  downloader come before its end: a process emits \<open>close\<close> when its streams have
  ended, and a process that could not be started writes nothing.
\<close>

record tool_run =
  download_chunks :: "string list"
  download_end :: proc_end
  cut_first :: proc_end
  cut_retry :: proc_end

text \<open>
  The \<open>try\<close> block of the background function. The result is \<open>None\<close> when an awaited
  promise is never settled. Deleting the temporary file and \<open>cleanupOldFiles\<close> touch
  the file system only and swallow their errors; they are left out.
\<close>

definition clip_job_try ::
  "number_lib \<Rightarrow> clip_job \<Rightarrow> tool_run \<Rightarrow> server \<Rightarrow> (js_error + unit) option \<times> server" where
  "clip_job_try lib job run s =
     (let downloadId = job_id job in
      case runYTDLPWithProgress lib downloadId (download_chunks run) (download_end run) s of
        (Inl e, s1) \<Rightarrow> (Some (Inl e), s1)
      | (Inr _, s1) \<Rightarrow>
          (let s2 = broadcastProgress downloadId
                      (store_set downloadId
                         \<lparr>status = processing, progress = 60, message = ''Cutting video...'',
                          filename = None, download_url = None\<rparr> s1)
           in case runFFmpeg (cut_first run) (cut_retry run) of
                None \<Rightarrow> (None, s2)
              | Some (Inl e) \<Rightarrow> (Some (Inl e), s2)
              | Some (Inr _) \<Rightarrow>
                  (Some (Inr ()),
                   broadcastProgress downloadId
                     (store_set downloadId
                        \<lparr>status = completed, progress = 100, message = ''Done!'',
                         filename = Some (downloadId @ ''.mp4''),
                         download_url = Some (''/api/download-file/'' @ downloadId @ ''.mp4'')\<rparr>
                        s2))))"

text \<open>The background function with its \<open>catch\<close> block.\<close>

definition clip_job_run ::
  "number_lib \<Rightarrow> clip_job \<Rightarrow> tool_run \<Rightarrow> server \<Rightarrow> (js_error + unit) option \<times> server" where
  "clip_job_run lib job run s =
     (case clip_job_try lib job run s of
        (Some (Inl (Error m)), s1) \<Rightarrow>
          (Some (Inr ()),
           broadcastProgress (job_id job)
             (store_set (job_id job)
                \<lparr>status = error, progress = 0, message = m,
                 filename = None, download_url = None\<rparr> s1))
      | r \<Rightarrow> r)"

section \<open>Route handler\<close>

datatype response_body =
    ErrorBody string
  | InvalidRequest
  | Queued string string string

record response =
  status_code :: nat
  body :: response_body

text \<open>
  \<open>handleDownloadClip\<close>. \<open>clock\<close> gives, for the n-th call of \<open>generateId\<close>, the clock
  reading and the random suffix. The result is the response, the background job that
  was started (if any) and the state when the handler returns.
\<close>

definition handleDownloadClip ::
  "(string \<Rightarrow> bool) \<Rightarrow> (nat \<Rightarrow> string \<times> string) \<Rightarrow> request_json \<Rightarrow> server
     \<Rightarrow> response \<times> clip_job option \<times> server" where
  "handleDownloadClip url_ok clock req s =
     (case req of
        JsonThrows m \<Rightarrow>
          (\<lparr>status_code = 500, body = ErrorBody (''Error processing video: '' @ m)\<rparr>, None, s)
      | JsonValue b \<Rightarrow>
          (case ClipRequestSchema url_ok b of
             None \<Rightarrow> (\<lparr>status_code = 400, body = InvalidRequest\<rparr>, None, s)
           | Some r \<Rightarrow>
               (case timeToSeconds (req_start_time r) of
                  Inl (Error m) \<Rightarrow>
                    (\<lparr>status_code = 500, body = ErrorBody (''Error processing video: '' @ m)\<rparr>,
                     None, s)
                | Inr start \<Rightarrow>
                    (case timeToSeconds (req_end_time r) of
                       Inl (Error m) \<Rightarrow>
                         (\<lparr>status_code = 500,
                           body = ErrorBody (''Error processing video: '' @ m)\<rparr>, None, s)
                     | Inr end' \<Rightarrow>
                         if js_ge start end' then
                           (\<lparr>status_code = 400,
                             body = ErrorBody ''Start time must be before end time''\<rparr>, None, s)
                         else if js_gt (js_sub end' start) (Fin 600) then
                           (\<lparr>status_code = 400,
                             body = ErrorBody ''Clip duration cannot exceed 10 minutes''\<rparr>,
                            None, s)
                         else
                           (let downloadId = generateId (fst (clock (generated s)))
                                               (snd (clock (generated s)));
                                s1 = s\<lparr>generated := Suc (generated s)\<rparr>;
                                s2 = store_set downloadId
                                       \<lparr>status = downloading, progress = 0,
                                        message = ''Starting download...'',
                                        filename = None, download_url = None\<rparr> s1
                            in (\<lparr>status_code = 200,
                                 body = Queued downloadId (downloadId @ ''.mp4'')
                                          (''/api/download-file/'' @ downloadId @ ''.mp4'')\<rparr>,
                                Some \<lparr>job_id = downloadId, job_url = req_url r,
                                      startSeconds = start, endSeconds = end'\<rparr>,
                                s2))))))"

section \<open>Subtitles to plain text\<close>

fun startsWith :: "string \<Rightarrow> string \<Rightarrow> bool" where
  "startsWith s [] = True"
| "startsWith [] (p # ps) = False"
| "startsWith (c # cs) (p # ps) = (c = p \<and> startsWith cs ps)"

text \<open>\<open>String.prototype.includes\<close>.\<close>

fun str_includes :: "string \<Rightarrow> string \<Rightarrow> bool" where
  "str_includes [] p = (p = [])"
| "str_includes (c # cs) p = (startsWith (c # cs) p \<or> str_includes cs p)"

text \<open>The test \<open>/^\d+$/\<close>.\<close>

definition all_digits :: "string \<Rightarrow> bool" where
  "all_digits s = (s \<noteq> [] \<and> list_all is_digit s)"

text \<open>
  The pattern \<open><[^>]+>\<close> at a \<open><\<close>: \<open>tag_end cs\<close>, for the text \<open>cs\<close> after the \<open><\<close>, is
  the text after the tag when a tag starts here. \<open>[^>]+\<close> takes the characters up to the
  next \<open>>\<close>, at least one, and that \<open>>\<close> must be there.
\<close>

definition tag_end :: "string \<Rightarrow> string option" where
  "tag_end cs =
     (let run = takeWhile (\<lambda>c. c \<noteq> CHR ''>'') cs;
          rest = dropWhile (\<lambda>c. c \<noteq> CHR ''>'') cs
      in if run \<noteq> [] \<and> rest \<noteq> [] then Some (tl rest) else None)"

text \<open>\<open>s.replace(/<[^>]+>/g, "")\<close>: matches are found from left to right, each search
  starting after the last match.\<close>

function removeTags :: "string \<Rightarrow> string" where
  "removeTags [] = []"
| "removeTags (c # cs) =
     (if c = CHR ''<'' then
        (case tag_end cs of
           Some rest \<Rightarrow> removeTags rest
         | None \<Rightarrow> c # removeTags cs)
      else c # removeTags cs)"
  by pat_completeness auto
termination
proof (relation "measure length")
  show "wf (measure length)" by simp
next
  fix c :: char and cs rest :: string
  assume "c = CHR ''<''" and "tag_end cs = Some rest"
  then have "rest = tl (dropWhile (\<lambda>c. c \<noteq> CHR ''>'') cs)"
    by (simp add: tag_end_def Let_def split: if_splits)
  moreover have "length (dropWhile (\<lambda>c. c \<noteq> CHR ''>'') cs) \<le> length cs"
    by (rule length_dropWhile_le)
  ultimately show "(rest, c # cs) \<in> measure length" by simp
qed simp_all

text \<open>Whether the pattern \<open><[^>]+>\<close> matches somewhere in a text.\<close>

fun has_tag :: "string \<Rightarrow> bool" where
  "has_tag [] = False"
| "has_tag (c # cs) = ((c = CHR ''<'' \<and> tag_end cs \<noteq> None) \<or> has_tag cs)"

text \<open>\<open>xs.join(sep)\<close> for a separator of one character.\<close>

fun join :: "char \<Rightarrow> string list \<Rightarrow> string" where
  "join sep [] = []"
| "join sep [x] = x"
| "join sep (x # y # ys) = x @ sep # join sep (y # ys)"

definition newline :: char where
  "newline = CHR 0x0A"

text \<open>The loop of \<open>convertSubtitleToText\<close> over the lines, with its two variables.\<close>

fun convert_lines :: "string list \<Rightarrow> string list \<Rightarrow> bool \<Rightarrow> string list" where
  "convert_lines [] textLines skipNext = textLines"
| "convert_lines (line # rest) textLines skipNext =
     (let trimmed = trim line in
      if trimmed = [] then convert_lines rest textLines skipNext
      else if all_digits trimmed then convert_lines rest textLines True
      else if str_includes trimmed ''-->'' \<or> skipNext then convert_lines rest textLines False
      else if startsWith trimmed ''WEBVTT'' \<or> startsWith trimmed ''NOTE''
              \<or> startsWith trimmed ''STYLE''
        then convert_lines rest textLines skipNext
      else (let cleanLine = removeTags trimmed in
            if cleanLine \<noteq> [] \<and> cleanLine \<notin> set textLines
            then convert_lines rest (textLines @ [cleanLine]) skipNext
            else convert_lines rest textLines skipNext))"

definition convertSubtitleToText :: "string \<Rightarrow> string" where
  "convertSubtitleToText content =
     join newline (convert_lines (split_on newline content) [] False)"

section \<open>Predicates used in the statements\<close>

text \<open>A number that is a non-negative integer or Infinity.\<close>

definition nonneg_or_inf :: "jsnum \<Rightarrow> bool" where
  "nonneg_or_inf v = (case v of Fin i \<Rightarrow> 0 \<le> i | PosInf \<Rightarrow> True | _ \<Rightarrow> False)"

text \<open>
  The leading field of a time string: the number that its digits before the first
  colon denote.
\<close>

definition leading_field :: "string \<Rightarrow> nat" where
  "leading_field s = digits_value 10 digit_val (takeWhile is_digit s)"

text \<open>
  The number of seconds in one unit of the leading field: 60 when the string has two
  fields (minutes and seconds), 3600 when it has three.
\<close>

definition field_factor :: "string \<Rightarrow> nat" where
  "field_factor s = (if length (split_on CHR '':'' s) = 2 then 60 else 3600)"

text \<open>
  The number of seconds that a time string denotes, in exact arithmetic: minutes and
  seconds for two fields, hours, minutes and seconds for three.
\<close>

definition seconds_denoted :: "string \<Rightarrow> nat" where
  "seconds_denoted s =
     (case map (digits_value 10 digit_val) (split_on CHR '':'' s) of
        [m, sec] \<Rightarrow> 60 * m + sec
      | [h, m, sec] \<Rightarrow> 3600 * h + 60 * m + sec
      | _ \<Rightarrow> 0)"

text \<open>The server at start-up, with every connection taken as open.\<close>

definition empty_server :: server where
  "empty_server =
     \<lparr>downloadProgress = Map.empty, clients = Map.empty, ws_open = (\<lambda>_. True),
      generated = 0, writes = [], sent = []\<rparr>"

text \<open>Whether a connection is in the set of observers of a job.\<close>

definition attached :: "server \<Rightarrow> string \<Rightarrow> ServerWebSocket \<Rightarrow> bool" where
  "attached s downloadId ws =
     (case clients s downloadId of None \<Rightarrow> False | Some cs \<Rightarrow> set_has ws cs)"

text \<open>The message that \<open>broadcastProgress\<close> sends, before \<open>JSON.stringify\<close>.\<close>

definition progress_msg :: "string \<Rightarrow> DownloadProgress \<Rightarrow> progress_message" where
  "progress_msg downloadId p =
     \<lparr>msg_type = ''progress'', msg_download_id = downloadId, msg_data = p\<rparr>"

text \<open>The record that the handler stores for a new job.\<close>

definition starting_record :: DownloadProgress where
  "starting_record =
     \<lparr>status = downloading, progress = 0, message = ''Starting download...'',
      filename = None, download_url = None\<rparr>"

text \<open>
  An example: three connections, two of them observing job1 (one of these no longer
  open) and one observing job2; job1 and job3 have a record.
\<close>

definition observer_a :: ServerWebSocket where
  "observer_a = \<lparr>conn = 1, id_param = Some ''job1''\<rparr>"

definition observer_b :: ServerWebSocket where
  "observer_b = \<lparr>conn = 2, id_param = Some ''job1''\<rparr>"

definition observer_c :: ServerWebSocket where
  "observer_c = \<lparr>conn = 3, id_param = Some ''job2''\<rparr>"

definition observed_server :: server where
  "observed_server =
     websocket_open observer_c (websocket_open observer_b (websocket_open observer_a
       (store_set ''job3'' starting_record (store_set ''job1'' starting_record
          (empty_server\<lparr>ws_open := (\<lambda>w. conn w \<noteq> 2)\<rparr>)))))"

text \<open>The percentages that the handler reads from the chunks of a run, in order.\<close>

definition reported :: "number_lib \<Rightarrow> string list \<Rightarrow> percent list" where
  "reported lib chunks =
     concat (map (\<lambda>c. case find_percent c of None \<Rightarrow> [] | Some m \<Rightarrow> [parseFloat lib m]) chunks)"

text \<open>The records that the background job writes.\<close>

definition downloading_record :: "number_lib \<Rightarrow> percent \<Rightarrow> DownloadProgress" where
  "downloading_record lib p =
     \<lparr>status = downloading, progress = download_progress p,
      message = ''Downloading... '' @ toFixed1 lib p @ ''%'', filename = None,
      download_url = None\<rparr>"

definition processing_record :: DownloadProgress where
  "processing_record =
     \<lparr>status = processing, progress = 50, message = ''Processing video...'',
      filename = None, download_url = None\<rparr>"

definition cutting_record :: DownloadProgress where
  "cutting_record =
     \<lparr>status = processing, progress = 60, message = ''Cutting video...'',
      filename = None, download_url = None\<rparr>"

definition completed_record :: "string \<Rightarrow> DownloadProgress" where
  "completed_record downloadId =
     \<lparr>status = completed, progress = 100, message = ''Done!'',
      filename = Some (downloadId @ ''.mp4''),
      download_url = Some (''/api/download-file/'' @ downloadId @ ''.mp4'')\<rparr>"

definition error_record :: "string \<Rightarrow> DownloadProgress" where
  "error_record m =
     \<lparr>status = error, progress = 0, message = m, filename = None, download_url = None\<rparr>"

text \<open>The records written, in order, between two states of the server.\<close>

definition written_between :: "server \<Rightarrow> server \<Rightarrow> DownloadProgress list" where
  "written_between s s' = map snd (drop (length (writes s)) (writes s'))"

text \<open>A state reached from \<open>s\<close> by writing and publishing the records \<open>rs\<close> for job \<open>i\<close>.\<close>

definition published :: "string \<Rightarrow> DownloadProgress list \<Rightarrow> server \<Rightarrow> server \<Rightarrow> bool" where
  "published i rs s s' =
     (writes s' = writes s @ map (Pair i) rs \<and>
      clients s' = clients s \<and> ws_open s' = ws_open s \<and> generated s' = generated s \<and>
      downloadProgress s' = (if rs = [] then downloadProgress s
                             else (downloadProgress s)(i \<mapsto> last rs)) \<and>
      (\<forall>ws. inbox s' ws =
         inbox s ws @ (if attached s i ws \<and> ws_open s ws then map (progress_msg i) rs else [])))"

text \<open>What the download stage returns and writes, by the way the downloader ends.\<close>

definition download_result :: "proc_end \<Rightarrow> js_error + unit" where
  "download_result ending =
     (case ending of
        Closed code \<Rightarrow>
          if code = Some 0 then Inr ()
          else Inl (Error (''Download failed with code '' @ code_text code))
      | ProcError m \<Rightarrow> Inl (Error m))"

text \<open>The records that a job writes, by what the tools do.\<close>

definition cut_records :: "string \<Rightarrow> proc_end \<Rightarrow> proc_end \<Rightarrow> DownloadProgress list" where
  "cut_records downloadId first retry =
     (case runFFmpeg first retry of
        None \<Rightarrow> []
      | Some (Inl (Error m)) \<Rightarrow> [error_record m]
      | Some (Inr _) \<Rightarrow> [completed_record downloadId])"

definition job_records :: "number_lib \<Rightarrow> clip_job \<Rightarrow> tool_run \<Rightarrow> DownloadProgress list" where
  "job_records lib job run =
     map (downloading_record lib) (reported lib (download_chunks run)) @
       (case download_result (download_end run) of
          Inl (Error m) \<Rightarrow> [error_record m]
        | Inr _ \<Rightarrow>
            [processing_record, cutting_record] @
              cut_records (job_id job) (cut_first run) (cut_retry run))"

text \<open>The terminal states of a job.\<close>

definition terminal :: "status \<Rightarrow> bool" where
  "terminal st = (st = completed \<or> st = error)"

text \<open>The order of the reported percentages, and the percentages that are not negative.\<close>

definition percent_le :: "percent \<Rightarrow> percent \<Rightarrow> bool" where
  "percent_le p q =
     (case (p, q) of
        (Percent a, Percent b) \<Rightarrow> a \<le> b
      | (_, PercentInf) \<Rightarrow> True
      | (PercentInf, Percent b) \<Rightarrow> False)"

definition percent_nonneg :: "percent \<Rightarrow> bool" where
  "percent_nonneg p = (case p of Percent a \<Rightarrow> 0 \<le> a | PercentInf \<Rightarrow> True)"

text \<open>
  An example: a request for the clip from 0:10 to 0:40, the job that the handler
  starts for it, the state when the handler returns, the two number functions on the
  texts of the example, and runs of the tools.
\<close>

definition example_request :: request_json where
  "example_request =
     JsonValue \<lparr>url = Some ''https://youtu.be/x'', start_time = Some ''0:10'',
                end_time = Some ''0:40''\<rparr>"

definition example_clock :: "nat \<Rightarrow> string \<times> string" where
  "example_clock n = (''2026-11-03T07:14:00.000Z'', ''0a1b2c3d'')"

definition example_job :: clip_job where
  "example_job =
     \<lparr>job_id = ''clip_20261103071400._0a1b2c3d'', job_url = ''https://youtu.be/x'',
      startSeconds = Fin 10, endSeconds = Fin 40\<rparr>"

definition example_lib :: number_lib where
  "example_lib =
     \<lparr>parseFloat = (\<lambda>m. if m = ''10.0'' then Percent 10
                        else if m = ''20.0'' then Percent 20
                        else if m = ''80.0'' then Percent 80
                        else if m = ''150.5'' then Percent (301 / 2)
                        else Percent 100),
      toFixed1 = (\<lambda>p. if p = Percent 10 then ''10.0''
                      else if p = Percent 20 then ''20.0''
                      else if p = Percent 80 then ''80.0''
                      else if p = Percent (301 / 2) then ''150.5''
                      else ''100.0'')\<rparr>"

definition example_started :: server where
  "example_started =
     store_set ''clip_20261103071400._0a1b2c3d'' starting_record (empty_server\<lparr>generated := 1\<rparr>)"

definition example_run :: tool_run where
  "example_run =
     \<lparr>download_chunks =
        [''[download]  80.0% of 5.00MiB'', ''[Merger] Merging formats'',
         ''[download]  10.0% of 1.00MiB''],
      download_end = Closed (Some 0), cut_first = Closed (Some 1), cut_retry = Closed (Some 0)\<rparr>"

definition two_reports :: string where
  "two_reports =
     ''[download]  10.0% of 5.00MiB'' @ [newline] @ ''[download]  20.0% of 5.00MiB''"

definition monotone_run :: tool_run where
  "monotone_run =
     \<lparr>download_chunks =
        [''[download]  10.0% of 5.00MiB'', ''[download] Destination: clip_temp.mkv'',
         ''[download]  80.0% of 5.00MiB''],
      download_end = Closed (Some 0), cut_first = Closed (Some 0), cut_retry = Closed (Some 0)\<rparr>"

definition retry_error_run :: tool_run where
  "retry_error_run =
     \<lparr>download_chunks = [], download_end = Closed (Some 0), cut_first = Closed (Some 1),
      cut_retry = ProcError ''spawn ffmpeg EAGAIN''\<rparr>"

text \<open>The elements of a list in the order of their first occurrences.\<close>

definition first_occurrences :: "'a list \<Rightarrow> 'a list" where
  "first_occurrences xs = rev (remdups (rev xs))"

definition push_new :: "'a list \<Rightarrow> 'a \<Rightarrow> 'a list" where
  "push_new acc x = (if x \<in> set acc then acc else acc @ [x])"

text \<open>
  The text lines in the reading of the specification: the lines that are neither a pure
  sequence number nor a line with a timing arrow, trimmed and without their markup
  tags, the empty ones left out.
\<close>

definition spec_text_lines :: "string \<Rightarrow> string list" where
  "spec_text_lines content =
     filter (\<lambda>l. l \<noteq> [])
       (map (\<lambda>line. removeTags (trim line))
          (filter (\<lambda>line. \<not> all_digits (trim line) \<and> \<not> str_includes (trim line) ''-->'')
             (split_on newline content)))"

text \<open>
  The lines that the conversion keeps, said without the loop. A header line starts
  with WEBVTT, NOTE or STYLE. \<open>after_number before\<close>: the nearest non-blank line among
  the lines \<open>before\<close> is a pure number. Line \<open>i\<close> is kept when, trimmed, it is not empty,
  is not a pure number, holds no timing arrow, is no header line, is not empty without
  its tags, and does not come after a number line.
\<close>

definition header_line :: "string \<Rightarrow> bool" where
  "header_line t =
     (startsWith t ''WEBVTT'' \<or> startsWith t ''NOTE'' \<or> startsWith t ''STYLE'')"

definition after_number :: "string list \<Rightarrow> bool" where
  "after_number before =
     (let ls = filter (\<lambda>l. trim l \<noteq> []) before
      in ls \<noteq> [] \<and> all_digits (trim (last ls)))"

definition kept :: "string list \<Rightarrow> nat \<Rightarrow> bool" where
  "kept lines i =
     (let t = trim (lines ! i) in
      t \<noteq> [] \<and> \<not> all_digits t \<and> \<not> str_includes t ''-->'' \<and> \<not> header_line t \<and>
      removeTags t \<noteq> [] \<and> \<not> after_number (take i lines))"

definition kept_lines :: "string list \<Rightarrow> string list" where
  "kept_lines lines =
     map (\<lambda>i. removeTags (trim (lines ! i))) (filter (kept lines) [0..<length lines])"

text \<open>
  Examples: an SRT text whose first cue starts with the text line "2024"; a text with a
  tag split over two lines; a WebVTT text without cue numbers, with tags, repeated
  lines, and a line after a number line.
\<close>

definition numeric_cue_srt :: string where
  "numeric_cue_srt =
     join newline
       [''1'', ''00:00:01,000 --> 00:00:02,000'', ''2024'', ''Hello'', '''',
        ''2'', ''00:00:03,000 --> 00:00:04,000'', ''World'', '''',
        ''3'', ''00:00:05,000 --> 00:00:06,000'', ''Hello'']"

definition split_tag_text :: string where
  "split_tag_text = join newline [''a<b'', ''c>d'']"

definition example_vtt :: string where
  "example_vtt =
     join newline
       [''WEBVTT'', '''', ''00:00:01.000 --> 00:00:02.000'', ''<c>Hello</c>'', '''',
        ''00:00:02.000 --> 00:00:03.500'', ''Hello'', '' <b>world</b> '', '''',
        ''7'', ''dropped'', ''Hello'']"

section \<open>Time parsing and formatting on the documented examples\<close>

lemma round_double_small: "\<bar>i\<bar> < 2 ^ 53 \<Longrightarrow> round_double i = Fin i"
  by (auto simp: round_double_def round_mag_def)

text \<open>
  C9. Parsing "1:05:30" gives 3930 seconds and formatting 3930 seconds gives "01:05:30";
  parsing "2:15" gives 135 seconds and formatting 135 seconds gives "02:15".
\<close>

theorem time_round_trip_examples:
  "timeToSeconds ''1:05:30'' = Inr (Fin 3930) \<and> formatSeconds 3930 = ''01:05:30'' \<and>
   timeToSeconds ''2:15'' = Inr (Fin 135) \<and> formatSeconds 135 = ''02:15''"
  by (simp add: timeToSeconds_def parseInt_def parse_magnitude_def digits_value_def
      is_space_def is_digit_def digit_val_def code_unit_def round_double_small formatSeconds_def
      padStart_def decimal_digits.simps digit_char_def)

section \<open>Time strings accepted by the schema\<close>

lemma split_on_no_sep: "sep \<notin> set xs \<Longrightarrow> split_on sep xs = [xs]"
  by (induction xs) auto

lemma split_on_append:
  "sep \<notin> set xs \<Longrightarrow> split_on sep (xs @ sep # ys) = xs # split_on sep ys"
  by (induction xs) auto

lemma nonneg_round: "0 \<le> i \<Longrightarrow> nonneg_or_inf (round_double i)"
  by (auto simp: nonneg_or_inf_def round_double_def split: option.splits)

lemma nonneg_mul: "nonneg_or_inf a \<Longrightarrow> 0 < k \<Longrightarrow> nonneg_or_inf (js_mul a (Fin k))"
  by (cases a) (auto simp: nonneg_or_inf_def intro: nonneg_round[unfolded nonneg_or_inf_def])

lemma nonneg_add: "nonneg_or_inf a \<Longrightarrow> nonneg_or_inf b \<Longrightarrow> nonneg_or_inf (js_add a b)"
  by (cases a; cases b) (auto simp: nonneg_or_inf_def intro: nonneg_round[unfolded nonneg_or_inf_def])

lemma colon_not_digit: "\<not> is_digit CHR '':''"
  by (simp add: is_digit_def code_unit_def)

lemma digit_not_space: "is_digit c \<Longrightarrow> \<not> is_space c"
  by (auto simp: is_digit_def is_space_def)

lemma parseInt_digits:
  assumes "d \<noteq> []" "\<forall>c \<in> set d. is_digit c"
  shows "parseInt d = round_double (int (digits_value 10 digit_val d))"
proof -
  obtain c cs where d: "d = c # cs" using assms(1) by (cases d) auto
  have c: "is_digit c" using assms(2) d by simp
  have sp: "dropWhile is_space (c # cs) = c # cs" using c digit_not_space by simp
  have sign: "c \<noteq> CHR ''-''" "c \<noteq> CHR ''+''" "c \<noteq> CHR ''x''" "c \<noteq> CHR ''X''"
    using c by (auto simp: is_digit_def code_unit_def)
  have hex: "take 2 (c # cs) \<noteq> ''0x''" "take 2 (c # cs) \<noteq> ''0X''"
  proof -
    show "take 2 (c # cs) \<noteq> ''0x''"
    proof (cases cs)
      case Nil then show ?thesis by simp
    next
      case (Cons y ys)
      then have "is_digit y" using assms(2) d by simp
      then have "y \<noteq> CHR ''x''" by (auto simp: is_digit_def code_unit_def)
      then show ?thesis using Cons by simp
    qed
    show "take 2 (c # cs) \<noteq> ''0X''"
    proof (cases cs)
      case Nil then show ?thesis by simp
    next
      case (Cons y ys)
      then have "is_digit y" using assms(2) d by simp
      then have "y \<noteq> CHR ''X''" by (auto simp: is_digit_def code_unit_def)
      then show ?thesis using Cons by simp
    qed
  qed
  have tw: "takeWhile is_digit (c # cs) = c # cs"
    using assms(2) d by (simp add: takeWhile_eq_all_conv)
  have nohex: "\<not> (take 2 (c # cs) = ''0x'' \<or> take 2 (c # cs) = ''0X'')"
    using hex by blast
  have pm: "parse_magnitude (c # cs) = Some (digits_value 10 digit_val (c # cs))"
    unfolding parse_magnitude_def by (simp only: nohex if_False Let_def tw) simp
  have "parseInt (c # cs) = round_double (int (digits_value 10 digit_val (c # cs)))"
    unfolding parseInt_def sp Let_def using sign pm by simp
  then show ?thesis using d by simp
qed

lemma is_0_to_5_digit: "is_0_to_5 c \<Longrightarrow> is_digit c"
  by (simp add: is_0_to_5_def is_digit_def)

lemma colon_two_digitsD:
  assumes "colon_two_digits t"
  shows "\<exists>a b. t = [CHR '':'', a, b] \<and> is_digit a \<and> is_digit b"
proof -
  from assms have l: "length t = 3" by (simp add: colon_two_digits_def)
  then obtain x y z where t: "t = [x, y, z]"
    by (auto simp: numeral_3_eq_3 length_Suc_conv)
  from assms show ?thesis
    unfolding t colon_two_digits_def by (simp add: is_0_to_5_digit)
qed

lemma time_pattern_parts:
  assumes "time_pattern s"
  obtains (short) h a b where "h \<noteq> []" "\<forall>c \<in> set h. is_digit c" "is_digit a" "is_digit b"
      "s = h @ [CHR '':'', a, b]"
  | (long) h a b a' b' where "h \<noteq> []" "\<forall>c \<in> set h. is_digit c" "is_digit a" "is_digit b"
      "is_digit a'" "is_digit b'" "s = h @ [CHR '':'', a, b, CHR '':'', a', b']"
proof -
  let ?h = "takeWhile is_digit s" and ?r = "dropWhile is_digit s"
  have h: "?h \<noteq> []" "\<forall>c \<in> set ?h. is_digit c"
    using assms by (auto simp: time_pattern_def Let_def dest: set_takeWhileD)
  have "colon_two_digits ?r \<or> (colon_two_digits (take 3 ?r) \<and> colon_two_digits (drop 3 ?r))"
    using assms by (simp add: time_pattern_def Let_def)
  then consider "colon_two_digits ?r"
    | "colon_two_digits (take 3 ?r)" "colon_two_digits (drop 3 ?r)"
    by blast
  then show ?thesis
  proof cases
    case 1
    then obtain a b where r: "?r = [CHR '':'', a, b]" and ab: "is_digit a" "is_digit b"
      using colon_two_digitsD by blast
    have "?h @ [CHR '':'', a, b] = s"
      using takeWhile_dropWhile_id[of is_digit s] unfolding r .
    then have e: "s = ?h @ [CHR '':'', a, b]" by (rule sym)
    show ?thesis by (rule short[OF h ab e])
  next
    case 2
    from 2(1) obtain a b where ab: "take 3 ?r = [CHR '':'', a, b]" "is_digit a" "is_digit b"
      using colon_two_digitsD by blast
    from 2(2) obtain a' b' where ab': "drop 3 ?r = [CHR '':'', a', b']" "is_digit a'" "is_digit b'"
      using colon_two_digitsD by blast
    have "[CHR '':'', a, b] @ [CHR '':'', a', b'] = ?r"
      using append_take_drop_id[of 3 ?r] unfolding ab(1) ab'(1) .
    then have r: "?r = [CHR '':'', a, b, CHR '':'', a', b']" by (simp only: append.simps)
    have "?h @ [CHR '':'', a, b, CHR '':'', a', b'] = s"
      using takeWhile_dropWhile_id[of is_digit s] unfolding r .
    then have e: "s = ?h @ [CHR '':'', a, b, CHR '':'', a', b']" by (rule sym)
    show ?thesis by (rule long[OF h ab(2,3) ab'(2,3) e])
  qed
qed

lemma takeWhile_digits_colon:
  "\<forall>c \<in> set h. is_digit c \<Longrightarrow> takeWhile is_digit (h @ CHR '':'' # r) = h"
  by (simp add: takeWhile_append2 colon_not_digit)

lemma nonneg_cases:
  assumes "nonneg_or_inf v"
  shows "(\<exists>n. v = Fin (int n)) \<or> v = PosInf"
proof (cases v)
  case (Fin i)
  then have "0 \<le> i" using assms by (simp add: nonneg_or_inf_def)
  then have "v = Fin (int (nat i))" using Fin by simp
  then show ?thesis by blast
qed (use assms in \<open>simp_all add: nonneg_or_inf_def\<close>)

lemma nonneg_Fin_nat: "nonneg_or_inf (Fin (int n))"
  by (simp add: nonneg_or_inf_def)

subsection \<open>Rounding: what stays finite, what is exact, what overflows\<close>

lemma bit_length_bounds: "0 < n \<Longrightarrow> 2 ^ (bit_length n - 1) \<le> n \<and> n < 2 ^ bit_length n"
proof (induction n rule: bit_length.induct)
  case (1 n)
  show ?case
  proof (cases "n div 2 = 0")
    case True
    then have "n = 1" using 1(2) by auto
    then show ?thesis by (simp add: bit_length.simps)
  next
    case False
    then have ih: "2 ^ (bit_length (n div 2) - 1) \<le> n div 2" "n div 2 < 2 ^ bit_length (n div 2)"
      using 1 by auto
    have bl: "bit_length n = Suc (bit_length (n div 2))"
      using 1(2) by (subst bit_length.simps) simp
    have pos: "0 < bit_length (n div 2)" using False by (subst bit_length.simps) simp
    then obtain k where k: "bit_length (n div 2) = Suc k" by (cases "bit_length (n div 2)") auto
    from ih have "2 * 2 ^ k \<le> n" "n < 2 * 2 ^ Suc k" unfolding k by auto
    then show ?thesis unfolding bl k by simp
  qed
qed

lemma round_mag_overflow:
  assumes "2 ^ 1024 \<le> n"
  shows "round_mag n = None"
proof -
  have big: "\<not> n < 2 ^ 53"
  proof -
    have "(2::nat) ^ 53 \<le> 2 ^ 1024" by (rule power_increasing) simp_all
    then show ?thesis using assms by linarith
  qed
  have pos: "0 < n" using assms by (metis less_le_trans zero_less_numeral zero_less_power)
  let ?b = "bit_length n"
  have b: "2 ^ (?b - 1) \<le> n" "n < 2 ^ ?b" using bit_length_bounds[OF pos] by auto
  have "(2::nat) ^ 1024 < 2 ^ ?b" using assms b(2) by linarith
  then have b1025: "1024 < ?b" by (rule power_less_imp_less_exp [rotated]) simp
  define e where "e = ?b - 53"
  have eb: "?b - 1 = 52 + e" using b1025 by (simp add: e_def)
  have "2 ^ 52 * 2 ^ e \<le> n" using b(1) unfolding eb by (simp add: power_add)
  then have q: "2 ^ 52 \<le> n div 2 ^ e"
    by (simp add: less_eq_div_iff_mult_less_eq)
  have "(2::nat) ^ 1024 \<le> 2 ^ (52 + e)"
    by (rule power_increasing) (use b1025 in \<open>simp_all add: e_def\<close>)
  also have "\<dots> = 2 ^ 52 * 2 ^ e" by (simp add: power_add)
  also have "\<dots> \<le> (n div 2 ^ e) * 2 ^ e" using q by simp
  finally have v: "2 ^ 1024 \<le> (n div 2 ^ e) * 2 ^ e" .
  then have v': "2 ^ 1024 \<le> (n div 2 ^ e + 1) * 2 ^ e"
    by (metis add_mult_distrib le_add1 le_trans)
  show ?thesis
    unfolding round_mag_def using big v v' by (simp add: Let_def e_def)
qed

lemma round_mag_le:
  assumes "n < 2 ^ k" and "k \<le> 1023"
  shows "\<exists>m. round_mag n = Some m \<and> m \<le> 2 ^ k"
proof (cases "n < 2 ^ 53")
  case True
  then show ?thesis using assms(1) by (simp add: round_mag_def)
next
  case False
  then have pos: "0 < n" by (cases n) auto
  let ?b = "bit_length n"
  have b: "2 ^ (?b - 1) \<le> n" "n < 2 ^ ?b" using bit_length_bounds [OF pos] by auto
  have "(2::nat) ^ (?b - 1) < 2 ^ k" using b(1) assms(1) by linarith
  then have "?b - 1 < k" by (rule power_less_imp_less_exp [rotated]) simp
  have "(2::nat) ^ 53 < 2 ^ ?b" using False b(2) by linarith
  then have b53: "53 < ?b" by (rule power_less_imp_less_exp [rotated]) simp
  then have bk: "?b \<le> k" using \<open>?b - 1 < k\<close> by linarith
  define e where "e = ?b - 53"
  have be: "?b = 53 + e" using b53 by (simp add: e_def)
  have "n < 2 ^ 53 * 2 ^ e" using b(2) unfolding be by (simp add: power_add)
  then have q: "n div 2 ^ e < 2 ^ 53" by (simp add: less_mult_imp_div_less)
  define q' where "q' = (if 2 ^ (e - 1) < n mod 2 ^ e \<or> (n mod 2 ^ e = 2 ^ (e - 1) \<and> odd (n div 2 ^ e))
      then n div 2 ^ e + 1 else n div 2 ^ e)"
  have "q' \<le> 2 ^ 53" using q by (simp add: q'_def)
  then have "q' * 2 ^ e \<le> 2 ^ 53 * 2 ^ e" by (rule mult_le_mono1)
  also have "\<dots> = 2 ^ ?b" by (simp only: be power_add)
  also have "\<dots> \<le> 2 ^ k" by (rule power_increasing) (use bk in simp_all)
  finally have v: "q' * 2 ^ e \<le> 2 ^ k" .
  have "(2::nat) ^ k < 2 ^ 1024" by (rule power_strict_increasing) (use assms(2) in simp_all)
  then have nov: "\<not> 2 ^ 1024 \<le> q' * 2 ^ e" using v by linarith
  have "round_mag n = (if 2 ^ 1024 \<le> q' * 2 ^ e then None else Some (q' * 2 ^ e))"
    by (simp only: round_mag_def Let_def False if_False e_def q'_def)
  then have "round_mag n = Some (q' * 2 ^ e)"
    using nov by (simp only: if_False)
  then show ?thesis using v by blast
qed

lemma bit_length_eq:
  assumes "2 ^ k \<le> n" and "n < 2 ^ Suc k"
  shows "bit_length n = Suc k"
proof -
  have pos: "0 < n" using assms(1) by (metis less_le_trans zero_less_numeral zero_less_power)
  let ?b = "bit_length n"
  have b: "2 ^ (?b - 1) \<le> n" "n < 2 ^ ?b" using bit_length_bounds [OF pos] by auto
  have "(2::nat) ^ k < 2 ^ ?b" using assms(1) b(2) by linarith
  then have 1: "k < ?b" by (rule power_less_imp_less_exp [rotated]) simp
  have "(2::nat) ^ (?b - 1) < 2 ^ Suc k" using assms(2) b(1) by linarith
  then have 2: "?b - 1 < Suc k" by (rule power_less_imp_less_exp [rotated]) simp
  from 1 2 show ?thesis by linarith
qed

lemma round_mag_top:
  assumes lo: "2 ^ 1023 \<le> n" and hi: "n < 2 ^ 1024"
  shows "round_mag n =
     (let q' = (if 2 ^ 970 < n mod 2 ^ 971 \<or> (n mod 2 ^ 971 = 2 ^ 970 \<and> odd (n div 2 ^ 971))
                then n div 2 ^ 971 + 1 else n div 2 ^ 971)
      in if 2 ^ 1024 \<le> q' * 2 ^ 971 then None else Some (q' * 2 ^ 971))"
proof -
  have "n < 2 ^ Suc 1023" using hi by simp
  then have bl: "bit_length n = Suc 1023" using lo by (intro bit_length_eq)
  have e: "Suc 1023 - 53 = 971" "971 - 1 = (970::nat)" by simp_all
  have "(2::nat) ^ 53 \<le> 2 ^ 1023" by (rule power_increasing) simp_all
  then have big: "\<not> n < 2 ^ 53" using lo by linarith
  show ?thesis
    by (simp only: round_mag_def Let_def big if_False bl e)
qed

lemma pow_facts:
  "(2::nat) ^ 1024 = 2 ^ 53 * 2 ^ 971"
  "(2::nat) ^ 971 = 2 * 2 ^ 970"
  "(2::nat) ^ 1023 \<le> 2 ^ 1024 - 2 ^ 971"
  "(2::nat) ^ 53 \<le> 2 ^ 1024 - 2 ^ 971"
  "(2 ^ 53 - 1) * 2 ^ 971 = (2::nat) ^ 1024 - 2 ^ 971"
  "(2::nat) ^ 1024 - 2 ^ 971 + 2 ^ 970 = 2 ^ 1024 - 2 ^ 970"
  "(2::nat) ^ 1024 - 2 ^ 971 < 2 ^ 1024"
  by simp_all

lemma round_mag_Some_le:
  assumes "round_mag n = Some v"
  shows "v \<le> 2 ^ 1024 - 2 ^ 971"
proof (cases "n < 2 ^ 1023")
  case True
  then obtain m where "round_mag n = Some m" "m \<le> 2 ^ 1023"
    using round_mag_le [of n 1023] by auto
  then show ?thesis using assms pow_facts(3) by simp
next
  case False
  then have lo: "2 ^ 1023 \<le> n" by simp
  have hi: "n < 2 ^ 1024"
  proof (rule ccontr)
    assume "\<not> n < 2 ^ 1024"
    then have "round_mag n = None" by (intro round_mag_overflow) simp
    then show False using assms by simp
  qed
  define q' where "q' = (if 2 ^ 970 < n mod 2 ^ 971 \<or> (n mod 2 ^ 971 = 2 ^ 970 \<and> odd (n div 2 ^ 971))
                then n div 2 ^ 971 + 1 else n div 2 ^ 971)"
  have rm: "round_mag n = (if 2 ^ 1024 \<le> q' * 2 ^ 971 then None else Some (q' * 2 ^ 971))"
    unfolding round_mag_top [OF lo hi] q'_def Let_def ..
  have nov: "\<not> 2 ^ 1024 \<le> q' * 2 ^ 971"
  proof
    assume "2 ^ 1024 \<le> q' * 2 ^ 971"
    then have "round_mag n = None" using rm by (simp only: if_True)
    then show False using assms by simp
  qed
  then have v: "v = q' * 2 ^ 971" using rm assms by (simp only: if_False option.inject)
  have "q' * 2 ^ 971 < 2 ^ 53 * 2 ^ 971" using nov unfolding pow_facts(1) by simp
  then have "q' < 2 ^ 53" by simp
  then have "q' \<le> 2 ^ 53 - 1" by simp
  then have "q' * 2 ^ 971 \<le> (2 ^ 53 - 1) * 2 ^ 971" by (rule mult_le_mono1)
  then show ?thesis unfolding v pow_facts(5) .
qed

lemma round_mag_below:
  assumes "n < 2 ^ 1024 - 2 ^ 970"
  shows "\<exists>v. round_mag n = Some v"
proof (cases "n < 2 ^ 1023")
  case True
  then show ?thesis using round_mag_le [of n 1023] by auto
next
  case False
  then have lo: "2 ^ 1023 \<le> n" by simp
  have hi: "n < 2 ^ 1024" using assms by simp
  define q where "q = n div 2 ^ 971"
  define r where "r = n mod 2 ^ 971"
  define q' where "q' = (if 2 ^ 970 < r \<or> (r = 2 ^ 970 \<and> odd q) then q + 1 else q)"
  have rm: "round_mag n = (if 2 ^ 1024 \<le> q' * 2 ^ 971 then None else Some (q' * 2 ^ 971))"
    unfolding round_mag_top [OF lo hi] q'_def q_def r_def Let_def ..
  have n: "n = q * 2 ^ 971 + r" unfolding q_def r_def by simp
  have "n < 2 ^ 53 * 2 ^ 971" using hi unfolding pow_facts(1) .
  then have q: "q < 2 ^ 53" unfolding q_def by (simp add: less_mult_imp_div_less)
  have "q' \<le> 2 ^ 53 - 1"
  proof (cases "q = 2 ^ 53 - 1")
    case True
    have "q * 2 ^ 971 + r < (2 ^ 53 - 1) * 2 ^ 971 + 2 ^ 970"
      using assms unfolding n [symmetric] pow_facts(5) pow_facts(6) .
    then have "r < 2 ^ 970" unfolding True by simp
    then have "q' = q" by (simp add: q'_def)
    then show ?thesis using True by simp
  next
    case False
    then have "q + 1 \<le> 2 ^ 53 - 1" using q by simp
    then show ?thesis by (simp add: q'_def)
  qed
  then have "q' * 2 ^ 971 \<le> (2 ^ 53 - 1) * 2 ^ 971" by (rule mult_le_mono1)
  then have "q' * 2 ^ 971 < 2 ^ 1024" unfolding pow_facts(5) using pow_facts(7) by linarith
  then have "\<not> 2 ^ 1024 \<le> q' * 2 ^ 971" by simp
  then have "round_mag n = Some (q' * 2 ^ 971)" using rm by (simp only: if_False)
  then show ?thesis by blast
qed

lemma round_double_le:
  assumes "n < 2 ^ k" and "k \<le> 1023"
  shows "\<exists>m. round_double (int n) = Fin (int m) \<and> m \<le> 2 ^ k"
proof -
  obtain m where "round_mag n = Some m" "m \<le> 2 ^ k"
    using round_mag_le [OF assms] by blast
  then show ?thesis by (simp add: round_double_def)
qed

lemma round_double_nat_small: "n < 2 ^ 53 \<Longrightarrow> round_double (int n) = Fin (int n)"
  by (rule round_double_small) simp

lemma round_double_overflow: "2 ^ 1024 \<le> n \<Longrightarrow> round_double (int n) = PosInf"
  by (simp add: round_double_def round_mag_overflow)

lemma round_double_nat_Some: "round_mag n = Some v \<Longrightarrow> round_double (int n) = Fin (int v)"
  by (simp add: round_double_def)

lemma round_double_nat_None: "round_mag n = None \<Longrightarrow> round_double (int n) = PosInf"
  by (simp add: round_double_def)

lemma js_add_small:
  assumes "round_mag n = Some X" and "c < 2 ^ 970"
  shows "\<exists>m Y. round_mag m = Some Y \<and> js_add (Fin (int X)) (Fin (int c)) = Fin (int Y)"
proof -
  have "X \<le> 2 ^ 1024 - 2 ^ 971" using assms(1) by (rule round_mag_Some_le)
  then have "X + c < 2 ^ 1024 - 2 ^ 971 + 2 ^ 970" using assms(2) by linarith
  then have "X + c < 2 ^ 1024 - 2 ^ 970" unfolding pow_facts(6) .
  then obtain Y where Y: "round_mag (X + c) = Some Y" using round_mag_below by blast
  have "js_add (Fin (int X)) (Fin (int c)) = round_double (int (X + c))" by simp
  also have "\<dots> = Fin (int Y)" using Y by (rule round_double_nat_Some)
  finally show ?thesis using Y by blast
qed

lemma js_mul_double:
  assumes "0 < k"
  shows "js_mul (round_double (int L)) (Fin (int k)) = PosInf \<or>
         (\<exists>m X. round_mag m = Some X \<and>
                js_mul (round_double (int L)) (Fin (int k)) = Fin (int X))"
proof (cases "round_mag L")
  case None
  then have "round_double (int L) = PosInf" by (rule round_double_nat_None)
  then show ?thesis using assms by simp
next
  case (Some H)
  then have H: "round_double (int L) = Fin (int H)" by (rule round_double_nat_Some)
  have m: "js_mul (Fin (int H)) (Fin (int k)) = round_double (int (H * k))" by simp
  show ?thesis
  proof (cases "round_mag (H * k)")
    case None
    then have "round_double (int (H * k)) = PosInf" by (rule round_double_nat_None)
    then show ?thesis unfolding H m by (rule disjI1)
  next
    case (Some X)
    then have "round_double (int (H * k)) = Fin (int X)" by (rule round_double_nat_Some)
    then show ?thesis unfolding H m using Some by blast
  qed
qed

lemma js_mul_le:
  assumes "v = Fin (int n)" and "n \<le> 2 ^ k" and "c < 2 ^ j" and "k + j \<le> 1023"
  shows "\<exists>m. js_mul v (Fin (int c)) = Fin (int m) \<and> m \<le> 2 ^ (k + j)"
proof -
  have "n * c \<le> 2 ^ k * c" using assms(2) by (rule mult_le_mono1)
  also have "\<dots> < 2 ^ k * 2 ^ j" using assms(3) by simp
  finally have "n * c < 2 ^ (k + j)" by (simp add: power_add)
  from round_double_le [OF this assms(4)]
  show ?thesis unfolding assms(1) by (simp add: of_nat_mult [symmetric] del: of_nat_mult)
qed

lemma js_add_le:
  assumes "a = Fin (int n)" and "n \<le> 2 ^ k" and "b = Fin (int c)" and "c \<le> 2 ^ k"
    and "k + 2 \<le> 1023"
  shows "\<exists>m. js_add a b = Fin (int m) \<and> m \<le> 2 ^ (k + 2)"
proof -
  have "n + c \<le> 2 * 2 ^ k" using assms(2,4) by simp
  also have "\<dots> < 4 * 2 ^ k" by simp
  finally have "n + c < 2 ^ (k + 2)" by (simp add: power_add)
  from round_double_le [OF this assms(5)]
  show ?thesis unfolding assms(1,3) by (simp add: of_nat_add [symmetric] del: of_nat_add)
qed

lemma digit_val_le: "is_digit c \<Longrightarrow> digit_val c \<le> 9"
  unfolding is_digit_def digit_val_def by linarith

lemma parseInt_two_digits:
  assumes "is_digit a" and "is_digit b"
  shows "parseInt [a, b] = Fin (int (digits_value 10 digit_val [a, b]))"
    and "digits_value 10 digit_val [a, b] < 100"
proof -
  show lt: "digits_value 10 digit_val [a, b] < 100"
    using digit_val_le [OF assms(1)] digit_val_le [OF assms(2)]
    by (simp add: digits_value_def)
  have "parseInt [a, b] = round_double (int (digits_value 10 digit_val [a, b]))"
    using assms by (intro parseInt_digits) simp_all
  also have "\<dots> = Fin (int (digits_value 10 digit_val [a, b]))"
    using lt by (intro round_double_small) simp
  finally show "parseInt [a, b] = Fin (int (digits_value 10 digit_val [a, b]))" .
qed

text \<open>Two fields: minutes and seconds.\<close>

lemma two_fields_integer:
  assumes "L < 2 ^ 1000" and "M < 100"
  shows "\<exists>n. js_add (js_mul (round_double (int L)) (Fin 60)) (Fin (int M)) = Fin (int n)"
proof -
  obtain H where H: "round_double (int L) = Fin (int H)" "H \<le> 2 ^ 1000"
    using round_double_le [OF assms(1)] by auto
  have "\<exists>m. js_mul (round_double (int L)) (Fin (int 60)) = Fin (int m) \<and> m \<le> 2 ^ (1000 + 6)"
    by (rule js_mul_le [OF H]) simp_all
  then obtain X where X: "js_mul (round_double (int L)) (Fin 60) = Fin (int X)" "X \<le> 2 ^ 1006"
    by auto
  have "(100::nat) \<le> 2 ^ 7" by simp
  also have "\<dots> \<le> 2 ^ 1006" by (rule power_increasing) simp_all
  finally have M: "M \<le> 2 ^ 1006" using assms(2) by linarith
  have "\<exists>m. js_add (js_mul (round_double (int L)) (Fin 60)) (Fin (int M)) = Fin (int m) \<and>
      m \<le> 2 ^ (1006 + 2)"
    by (rule js_add_le [OF X refl M]) simp
  then show ?thesis by blast
qed

lemma two_fields_exact:
  assumes "60 * L + M < 2 ^ 53"
  shows "js_add (js_mul (round_double (int L)) (Fin 60)) (Fin (int M)) = Fin (int (60 * L + M))"
proof -
  have "L < 2 ^ 53" "L * 60 < 2 ^ 53" using assms by linarith+
  then have "js_mul (round_double (int L)) (Fin 60) = Fin (int (L * 60))"
    using round_double_nat_small [of L] round_double_nat_small [of "L * 60"] by simp
  moreover have "L * 60 + M < 2 ^ 53" using assms by linarith
  ultimately show ?thesis
    using round_double_nat_small [of "L * 60 + M"] by (simp add: mult.commute)
qed

lemma two_fields_overflow:
  assumes "2 ^ 1024 \<le> L"
  shows "js_add (js_mul (round_double (int L)) (Fin 60)) (Fin (int M)) = PosInf"
  by (simp add: round_double_overflow [OF assms])

lemma two_fields_infinite_iff:
  assumes "M < 100"
  shows "js_add (js_mul (round_double (int L)) (Fin 60)) (Fin (int M)) = PosInf \<longleftrightarrow>
         js_mul (round_double (int L)) (Fin 60) = PosInf"
proof -
  have c: "M < 2 ^ 970" using assms by simp
  have "js_mul (round_double (int L)) (Fin (int 60)) = PosInf \<or>
      (\<exists>m X. round_mag m = Some X \<and>
         js_mul (round_double (int L)) (Fin (int 60)) = Fin (int X))"
    by (rule js_mul_double) simp
  then consider "js_mul (round_double (int L)) (Fin 60) = PosInf"
    | m X where "round_mag m = Some X" "js_mul (round_double (int L)) (Fin 60) = Fin (int X)"
    by auto
  then show ?thesis
  proof cases
    case 1
    then show ?thesis by simp
  next
    case 2
    obtain Y where "js_add (Fin (int X)) (Fin (int M)) = Fin (int Y)"
      using js_add_small [OF 2(1) c] by blast
    then show ?thesis unfolding 2(2) by simp
  qed
qed

text \<open>Three fields: hours, minutes and seconds.\<close>

lemma three_fields_integer:
  assumes "L < 2 ^ 1000" and "M < 100" and "S < 100"
  shows "\<exists>n. js_add (js_add (js_mul (round_double (int L)) (Fin 3600))
                  (js_mul (Fin (int M)) (Fin 60))) (Fin (int S)) = Fin (int n)"
proof -
  obtain H where H: "round_double (int L) = Fin (int H)" "H \<le> 2 ^ 1000"
    using round_double_le [OF assms(1)] by auto
  have "\<exists>m. js_mul (round_double (int L)) (Fin (int 3600)) = Fin (int m) \<and> m \<le> 2 ^ (1000 + 12)"
    by (rule js_mul_le [OF H]) simp_all
  then obtain X where X: "js_mul (round_double (int L)) (Fin 3600) = Fin (int X)" "X \<le> 2 ^ 1012"
    by auto
  have m60: "js_mul (Fin (int M)) (Fin 60) = Fin (int (M * 60))"
    using assms(2) round_double_nat_small [of "M * 60"] by simp
  have "(6000::nat) \<le> 2 ^ 13" by simp
  also have "\<dots> \<le> 2 ^ 1012" by (rule power_increasing) simp_all
  finally have big: "(6000::nat) \<le> 2 ^ 1012" .
  have M: "M * 60 \<le> 2 ^ 1012" using assms(2) big by linarith
  have "\<exists>m. js_add (js_mul (round_double (int L)) (Fin 3600)) (js_mul (Fin (int M)) (Fin 60)) =
         Fin (int m) \<and> m \<le> 2 ^ (1012 + 2)"
    by (rule js_add_le [OF X m60 M]) simp
  then obtain Y where Y: "js_add (js_mul (round_double (int L)) (Fin 3600))
      (js_mul (Fin (int M)) (Fin 60)) = Fin (int Y)" "Y \<le> 2 ^ 1014"
    by auto
  have "(2::nat) ^ 1012 \<le> 2 ^ 1014" by (rule power_increasing) simp_all
  then have S: "S \<le> 2 ^ 1014" using assms(3) big by linarith
  have "\<exists>m. js_add (js_add (js_mul (round_double (int L)) (Fin 3600))
                  (js_mul (Fin (int M)) (Fin 60))) (Fin (int S)) = Fin (int m) \<and>
      m \<le> 2 ^ (1014 + 2)"
    by (rule js_add_le [OF Y refl S]) simp
  then show ?thesis by blast
qed

lemma three_fields_exact:
  assumes "3600 * L + 60 * M + S < 2 ^ 53"
  shows "js_add (js_add (js_mul (round_double (int L)) (Fin 3600))
            (js_mul (Fin (int M)) (Fin 60))) (Fin (int S)) =
         Fin (int (3600 * L + 60 * M + S))"
proof -
  have "L < 2 ^ 53" "L * 3600 < 2 ^ 53" "M * 60 < 2 ^ 53" using assms by linarith+
  then have a: "js_mul (round_double (int L)) (Fin 3600) = Fin (int (L * 3600))"
    and b: "js_mul (Fin (int M)) (Fin 60) = Fin (int (M * 60))"
    using round_double_nat_small [of L] round_double_nat_small [of "L * 3600"]
      round_double_nat_small [of "M * 60"] by simp_all
  have "L * 3600 + M * 60 < 2 ^ 53" using assms by linarith
  then have c: "js_add (Fin (int (L * 3600))) (Fin (int (M * 60))) =
      Fin (int (L * 3600 + M * 60))"
    using round_double_nat_small [of "L * 3600 + M * 60"] by simp
  have "L * 3600 + M * 60 + S < 2 ^ 53" using assms by linarith
  then have d: "js_add (Fin (int (L * 3600 + M * 60))) (Fin (int S)) =
      Fin (int (L * 3600 + M * 60 + S))"
    using round_double_nat_small [of "L * 3600 + M * 60 + S"] by simp
  show ?thesis unfolding a b c d by (simp add: mult.commute)
qed

lemma three_fields_overflow:
  assumes "2 ^ 1024 \<le> L" and "M < 100"
  shows "js_add (js_add (js_mul (round_double (int L)) (Fin 3600))
            (js_mul (Fin (int M)) (Fin 60))) (Fin (int S)) = PosInf"
proof -
  have m60: "js_mul (Fin (int M)) (Fin 60) = Fin (int (M * 60))"
    using assms(2) round_double_nat_small [of "M * 60"] by simp
  show ?thesis unfolding m60 by (simp add: round_double_overflow [OF assms(1)])
qed

lemma three_fields_infinite_iff:
  assumes "M < 100" and "S < 100"
  shows "js_add (js_add (js_mul (round_double (int L)) (Fin 3600))
            (js_mul (Fin (int M)) (Fin 60))) (Fin (int S)) = PosInf \<longleftrightarrow>
         js_mul (round_double (int L)) (Fin 3600) = PosInf"
proof -
  have m60: "js_mul (Fin (int M)) (Fin 60) = Fin (int (M * 60))"
    using assms(1) round_double_nat_small [of "M * 60"] by simp
  have c: "M * 60 < 2 ^ 970" "S < 2 ^ 970" using assms by simp_all
  have "js_mul (round_double (int L)) (Fin (int 3600)) = PosInf \<or>
      (\<exists>m X. round_mag m = Some X \<and>
         js_mul (round_double (int L)) (Fin (int 3600)) = Fin (int X))"
    by (rule js_mul_double) simp
  then consider "js_mul (round_double (int L)) (Fin 3600) = PosInf"
    | m X where "round_mag m = Some X" "js_mul (round_double (int L)) (Fin 3600) = Fin (int X)"
    by auto
  then show ?thesis
  proof cases
    case 1
    then show ?thesis unfolding m60 by simp
  next
    case 2
    obtain m' Y where Y: "round_mag m' = Some Y"
      "js_add (Fin (int X)) (Fin (int (M * 60))) = Fin (int Y)"
      using js_add_small [OF 2(1) c(1)] by blast
    obtain Z where "js_add (Fin (int Y)) (Fin (int S)) = Fin (int Z)"
      using js_add_small [OF Y(1) c(2)] by blast
    then show ?thesis unfolding 2(2) m60 Y(2) by simp
  qed
qed

subsection \<open>The result of \<open>timeToSeconds\<close> on an accepted string\<close>

text \<open>
  C10, as amended. For every string that the pattern of the request schema accepts,
  \<open>timeToSeconds\<close> does not throw, and its result is a non-negative integer or Infinity.
  It is Infinity exactly when the leading field (the digits before the first colon),
  read as a double and multiplied by 60 (two fields) or 3600 (three fields), overflows
  a double; the additions never overflow. So the result is a non-negative integer
  whenever the leading field is below \<open>2 ^ 1000\<close>, and Infinity whenever the leading
  field is \<open>2 ^ 1024\<close> or more. The result is exactly the number of seconds that the
  string denotes whenever that number is below \<open>2 ^ 53\<close>.
\<close>

theorem timeToSeconds_accepted:
  assumes "time_pattern s"
  shows "((\<exists>n. timeToSeconds s = Inr (Fin (int n))) \<or> timeToSeconds s = Inr PosInf) \<and>
         (timeToSeconds s = Inr PosInf \<longleftrightarrow>
            js_mul (round_double (int (leading_field s))) (Fin (int (field_factor s))) = PosInf) \<and>
         (leading_field s < 2 ^ 1000 \<longrightarrow> (\<exists>n. timeToSeconds s = Inr (Fin (int n)))) \<and>
         (seconds_denoted s < 2 ^ 53 \<longrightarrow>
            timeToSeconds s = Inr (Fin (int (seconds_denoted s)))) \<and>
         (2 ^ 1024 \<le> leading_field s \<longrightarrow> timeToSeconds s = Inr PosInf)"
  using assms
proof (cases rule: time_pattern_parts)
  case (short h a b)
  define L where "L = digits_value 10 digit_val h"
  define M where "M = digits_value 10 digit_val [a, b]"
  let ?v = "js_add (js_mul (round_double (int L)) (Fin 60)) (Fin (int M))"
  have nh: "CHR '':'' \<notin> set h" using short(2) colon_not_digit by auto
  have nab: "a \<noteq> CHR '':''" "b \<noteq> CHR '':''" using short colon_not_digit by auto
  have sp: "split_on CHR '':'' s = [h, [a, b]]"
    using nab by (simp add: short(5) split_on_append [OF nh])
  have ph: "parseInt h = round_double (int L)"
    unfolding L_def using short(1,2) by (rule parseInt_digits)
  have pm: "parseInt [a, b] = Fin (int M)" and M: "M < 100"
    unfolding M_def using parseInt_two_digits [OF short(3,4)] by auto
  have t: "timeToSeconds s = Inr ?v"
    by (simp add: timeToSeconds_def sp ph pm)
  have lf: "leading_field s = L"
    unfolding leading_field_def short(5) L_def
    by (simp only: takeWhile_digits_colon [OF short(2)])
  have sd: "seconds_denoted s = 60 * L + M"
    by (simp add: seconds_denoted_def sp L_def M_def)
  have ff: "field_factor s = 60" by (simp add: field_factor_def sp)
  have "nonneg_or_inf ?v"
    by (intro nonneg_add nonneg_mul nonneg_round nonneg_Fin_nat) simp_all
  then have c1: "(\<exists>n. ?v = Fin (int n)) \<or> ?v = PosInf" by (rule nonneg_cases)
  show ?thesis
    unfolding t lf sd ff
    using c1 two_fields_integer [OF _ M, of L] two_fields_exact [of L M]
      two_fields_overflow [of L M] two_fields_infinite_iff [OF M, of L]
    by (simp only: sum.inject of_nat_numeral) blast
next
  case (long h a b a' b')
  define L where "L = digits_value 10 digit_val h"
  define M where "M = digits_value 10 digit_val [a, b]"
  define S where "S = digits_value 10 digit_val [a', b']"
  let ?v = "js_add (js_add (js_mul (round_double (int L)) (Fin 3600))
                      (js_mul (Fin (int M)) (Fin 60))) (Fin (int S))"
  have nh: "CHR '':'' \<notin> set h" using long(2) colon_not_digit by auto
  have nab: "a \<noteq> CHR '':''" "b \<noteq> CHR '':''" "a' \<noteq> CHR '':''" "b' \<noteq> CHR '':''"
    using long colon_not_digit by auto
  have sp: "split_on CHR '':'' s = [h, [a, b], [a', b']]"
    using nab by (simp add: long(7) split_on_append [OF nh])
  have ph: "parseInt h = round_double (int L)"
    unfolding L_def using long(1,2) by (rule parseInt_digits)
  have pm: "parseInt [a, b] = Fin (int M)" and M: "M < 100"
    unfolding M_def using parseInt_two_digits [OF long(3,4)] by auto
  have ps: "parseInt [a', b'] = Fin (int S)" and S: "S < 100"
    unfolding S_def using parseInt_two_digits [OF long(5,6)] by auto
  have t: "timeToSeconds s = Inr ?v"
    by (simp add: timeToSeconds_def sp ph pm ps)
  have lf: "leading_field s = L"
    unfolding leading_field_def long(7) L_def
    by (simp only: takeWhile_digits_colon [OF long(2)])
  have sd: "seconds_denoted s = 3600 * L + 60 * M + S"
    by (simp add: seconds_denoted_def sp L_def M_def S_def)
  have ff: "field_factor s = 3600" by (simp add: field_factor_def sp)
  have "nonneg_or_inf ?v"
    by (intro nonneg_add nonneg_mul nonneg_round nonneg_Fin_nat) simp_all
  then have c1: "(\<exists>n. ?v = Fin (int n)) \<or> ?v = PosInf" by (rule nonneg_cases)
  show ?thesis
    unfolding t lf sd ff
    using c1 three_fields_integer [OF _ M S, of L] three_fields_exact [of L M S]
      three_fields_overflow [OF _ M, of L S] three_fields_infinite_iff [OF M S, of L]
    by (simp only: sum.inject of_nat_numeral) blast
qed

subsection \<open>An hours field that overflows\<close>

lemma digits_value_zeros:
  "digits_value 10 digit_val (xs @ replicate n CHR ''0'') = digits_value 10 digit_val xs * 10 ^ n"
proof (induction n)
  case 0
  then show ?case by simp
next
  case (Suc n)
  have "xs @ replicate (Suc n) CHR ''0'' = (xs @ replicate n CHR ''0'') @ [CHR ''0'']"
    by (simp add: replicate_append_same)
  then have "digits_value 10 digit_val (xs @ replicate (Suc n) CHR ''0'') =
      digits_value 10 digit_val (xs @ replicate n CHR ''0'') * 10 + digit_val CHR ''0''"
    by (simp only: digits_value_def foldl_append foldl.simps)
  moreover have "digit_val CHR ''0'' = 0" by (simp add: digit_val_def code_unit_def)
  ultimately have "digits_value 10 digit_val (xs @ replicate (Suc n) CHR ''0'') =
      digits_value 10 digit_val xs * 10 ^ n * 10"
    by (simp only: Suc add_0_right)
  then show ?case by (simp add: mult.assoc)
qed

lemma is_digit_zero: "is_digit CHR ''0''" and is_digit_one: "is_digit CHR ''1''"
  by (simp_all add: is_digit_def code_unit_def)

lemma overflow_hours_digits:
  "\<forall>c \<in> set (''1'' @ replicate 309 CHR ''0''). is_digit c"
  using is_digit_zero is_digit_one by auto

lemma parseInt_overflow_hours: "parseInt (''1'' @ replicate 309 CHR ''0'') = PosInf"
proof -
  have "digits_value 10 digit_val (''1'' @ replicate 309 CHR ''0'') = 10 ^ 309"
    by (simp only: digits_value_zeros) (simp add: digits_value_def digit_val_def code_unit_def)
  moreover have "(2::nat) ^ 1024 \<le> 10 ^ 309" by simp
  ultimately have "round_mag (digits_value 10 digit_val (''1'' @ replicate 309 CHR ''0'')) = None"
    by (simp only: round_mag_overflow)
  then have "round_double (int (digits_value 10 digit_val (''1'' @ replicate 309 CHR ''0''))) = PosInf"
    by (simp add: round_double_def)
  moreover have "''1'' @ replicate 309 CHR ''0'' \<noteq> []" by simp
  ultimately show ?thesis
    using parseInt_digits[OF _ overflow_hours_digits] by simp
qed

lemma overflow_time_pattern: "time_pattern (''1'' @ replicate 309 CHR ''0'' @ '':00'')"
proof -
  let ?h = "''1'' @ replicate 309 CHR ''0''"
  have e: "''1'' @ replicate 309 CHR ''0'' @ '':00'' = ?h @ '':00''" by simp
  have tw: "takeWhile is_digit (?h @ '':00'') = ?h"
    using overflow_hours_digits by (simp only: takeWhile_append2) (simp add: colon_not_digit)
  have dw: "dropWhile is_digit (?h @ '':00'') = '':00''"
    using overflow_hours_digits by (simp only: dropWhile_append2) (simp add: colon_not_digit)
  show ?thesis
    unfolding e time_pattern_def tw dw
    by (simp add: colon_two_digits_def is_0_to_5_def is_digit_def code_unit_def)
qed

lemma overflow_leading_field:
  "leading_field (''1'' @ replicate 309 CHR ''0'' @ '':00'') = 10 ^ 309"
proof -
  let ?h = "''1'' @ replicate 309 CHR ''0''"
  have e: "''1'' @ replicate 309 CHR ''0'' @ '':00'' = ?h @ CHR '':'' # ''00''" by simp
  have "leading_field (?h @ CHR '':'' # ''00'') = digits_value 10 digit_val ?h"
    unfolding leading_field_def
    by (simp only: takeWhile_digits_colon [OF overflow_hours_digits])
  also have "\<dots> = 10 ^ 309"
    by (simp only: digits_value_zeros) (simp add: digits_value_def digit_val_def code_unit_def)
  finally show ?thesis unfolding e .
qed

text \<open>
  C10, as stated, fails on an hours field beyond the range of a double: with 310 digits
  \<open>parseInt\<close> gives Infinity, and so does \<open>timeToSeconds\<close>.
\<close>

theorem timeToSeconds_overflow:
  "time_pattern (''1'' @ replicate 309 CHR ''0'' @ '':00'') \<and>
   timeToSeconds (''1'' @ replicate 309 CHR ''0'' @ '':00'') = Inr PosInf"
proof
  let ?h = "''1'' @ replicate 309 CHR ''0''"
  have e: "''1'' @ replicate 309 CHR ''0'' @ '':00'' = ?h @ '':00''" by simp
  show "time_pattern (''1'' @ replicate 309 CHR ''0'' @ '':00'')"
    by (rule overflow_time_pattern)
  have nc: "CHR '':'' \<notin> set ?h" using overflow_hours_digits colon_not_digit by blast
  have "split_on CHR '':'' (?h @ '':00'') = [?h, ''00'']"
    by (simp only: split_on_append[OF nc]) simp
  then have t: "timeToSeconds (?h @ '':00'') =
      Inr (js_add (js_mul (parseInt ?h) (Fin 60)) (parseInt ''00''))"
    by (simp add: timeToSeconds_def)
  have z: "parseInt ''00'' = Fin 0"
    by (simp add: parseInt_def parse_magnitude_def digits_value_def is_space_def is_digit_def
        digit_val_def code_unit_def round_double_small)
  show "timeToSeconds (''1'' @ replicate 309 CHR ''0'' @ '':00'') = Inr PosInf"
    unfolding e t z parseInt_overflow_hours by simp
qed

theorem timeToSeconds_accepted_witness:
  "timeToSeconds ''1:05:30'' = Inr (Fin 3930) \<and>
   timeToSeconds (''1'' @ replicate 309 CHR ''0'' @ '':00'') = Inr PosInf"
proof
  have tp: "time_pattern ''1:05:30''"
    by (simp add: time_pattern_def colon_two_digits_def is_0_to_5_def is_digit_def code_unit_def)
  have sd: "seconds_denoted ''1:05:30'' = 3930"
    by (simp add: seconds_denoted_def digits_value_def digit_val_def code_unit_def)
  have "seconds_denoted ''1:05:30'' < 2 ^ 53 \<longrightarrow>
      timeToSeconds ''1:05:30'' = Inr (Fin (int (seconds_denoted ''1:05:30'')))"
    using timeToSeconds_accepted [OF tp] by (elim conjE)
  then show "timeToSeconds ''1:05:30'' = Inr (Fin 3930)"
    unfolding sd by simp
  have "2 ^ 1024 \<le> leading_field (''1'' @ replicate 309 CHR ''0'' @ '':00'') \<longrightarrow>
      timeToSeconds (''1'' @ replicate 309 CHR ''0'' @ '':00'') = Inr PosInf"
    using timeToSeconds_accepted [OF overflow_time_pattern] by (elim conjE)
  moreover have "(2::nat) ^ 1024 \<le> 10 ^ 309" by simp
  ultimately show "timeToSeconds (''1'' @ replicate 309 CHR ''0'' @ '':00'') = Inr PosInf"
    unfolding overflow_leading_field by (rule mp)
qed

section \<open>The download handler\<close>

text \<open>
  C1. A request whose parsed start time is not before its parsed end time, or whose
  duration is more than 600 seconds, is answered with status 400 when the handler
  returns; no job is started and the state of the server, the store and the count of
  generated ids included, is the state before the request.
\<close>

theorem handleDownloadClip_rejects_bad_range:
  assumes "start_time b = Some st" and "end_time b = Some et"
    and "timeToSeconds st = Inr start" and "timeToSeconds et = Inr end'"
    and "js_ge start end' \<or> js_gt (js_sub end' start) (Fin 600)"
  shows "case handleDownloadClip url_ok clock (JsonValue b) s of
           (resp, job, s') \<Rightarrow>
             status_code resp = 400 \<and> job = None \<and> s' = s \<and>
             (ClipRequestSchema url_ok b \<noteq> None \<longrightarrow>
                body resp =
                  ErrorBody (if js_ge start end' then ''Start time must be before end time''
                             else ''Clip duration cannot exceed 10 minutes''))"
proof (cases "ClipRequestSchema url_ok b")
  case None
  then show ?thesis by (simp add: handleDownloadClip_def)
next
  case (Some r)
  then have "req_start_time r = st" "req_end_time r = et"
    using assms(1,2) by (auto simp: ClipRequestSchema_def split: option.splits if_splits)
  then show ?thesis
    using Some assms(3,4,5) by (auto simp: handleDownloadClip_def)
qed

lemma time_examples:
  "timeToSeconds ''0:10'' = Inr (Fin 10)" "timeToSeconds ''0:40'' = Inr (Fin 40)"
  "timeToSeconds ''20:00'' = Inr (Fin 1200)"
  "time_pattern ''0:10''" "time_pattern ''0:40''" "time_pattern ''20:00''"
  by (simp_all add: timeToSeconds_def parseInt_def parse_magnitude_def digits_value_def
      is_space_def is_digit_def digit_val_def code_unit_def round_double_small
      time_pattern_def colon_two_digits_def is_0_to_5_def)

theorem handleDownloadClip_rejects_bad_range_witness:
  "handleDownloadClip (\<lambda>_. True) (\<lambda>_. (''2026-11-03T07:14:00.000Z'', ''0a1b2c3d''))
     (JsonValue \<lparr>url = Some ''https://youtu.be/x'', start_time = Some ''0:40'',
                 end_time = Some ''0:10''\<rparr>) empty_server =
     (\<lparr>status_code = 400, body = ErrorBody ''Start time must be before end time''\<rparr>,
      None, empty_server) \<and>
   handleDownloadClip (\<lambda>_. True) (\<lambda>_. (''2026-11-03T07:14:00.000Z'', ''0a1b2c3d''))
     (JsonValue \<lparr>url = Some ''https://youtu.be/x'', start_time = Some ''0:10'',
                 end_time = Some ''20:00''\<rparr>) empty_server =
     (\<lparr>status_code = 400, body = ErrorBody ''Clip duration cannot exceed 10 minutes''\<rparr>,
      None, empty_server)"
proof -
  let ?b1 = "\<lparr>url = Some ''https://youtu.be/x'', start_time = Some ''0:40'',
              end_time = Some ''0:10''\<rparr>"
  let ?b2 = "\<lparr>url = Some ''https://youtu.be/x'', start_time = Some ''0:10'',
              end_time = Some ''20:00''\<rparr>"
  have a: "js_ge (Fin 40) (Fin 10) \<or> js_gt (js_sub (Fin 10) (Fin 40)) (Fin 600)"
    by (simp add: js_ge_def)
  have b: "js_ge (Fin 10) (Fin 1200) \<or> js_gt (js_sub (Fin 1200) (Fin 10)) (Fin 600)"
    by (simp add: js_gt_def js_sub_def round_double_small)
  have s1: "ClipRequestSchema (\<lambda>_. True) ?b1 \<noteq> None"
    and s2: "ClipRequestSchema (\<lambda>_. True) ?b2 \<noteq> None"
    by (simp_all add: ClipRequestSchema_def time_examples)
  have nb: "\<not> js_ge (Fin 10) (Fin 1200)" "js_ge (Fin 40) (Fin 10)" by (simp_all add: js_ge_def)
  show ?thesis
    using handleDownloadClip_rejects_bad_range[where b = ?b1 and url_ok = "\<lambda>_. True"
        and clock = "\<lambda>_. (''2026-11-03T07:14:00.000Z'', ''0a1b2c3d'')" and s = empty_server,
        OF _ _ time_examples(2) time_examples(1) a]
      handleDownloadClip_rejects_bad_range[where b = ?b2 and url_ok = "\<lambda>_. True"
        and clock = "\<lambda>_. (''2026-11-03T07:14:00.000Z'', ''0a1b2c3d'')" and s = empty_server,
        OF _ _ time_examples(1) time_examples(3) b]
      s1 s2 nb
    by (auto simp: split_beta prod_eq_iff intro!: response.equality)
qed

lemma js_lt_not_ge: "js_lt a b \<Longrightarrow> \<not> js_ge a b"
  by (cases a; cases b) (auto simp: js_ge_def)

text \<open>
  C2. A request that passes validation (URL accepted, both times matching the pattern,
  start before end, duration at most 600 seconds) is answered with status 200, the new
  job id, the file name and the download URL made from it; when the handler returns,
  the store maps the id to the record downloading, 0, "Starting download...".
\<close>

theorem handleDownloadClip_accepts:
  assumes "url_ok u" "time_pattern st" "time_pattern et"
    and "timeToSeconds st = Inr start" "timeToSeconds et = Inr end'"
    and "js_lt start end'" "\<not> js_gt (js_sub end' start) (Fin 600)"
  shows "let downloadId = generateId (fst (clock (generated s))) (snd (clock (generated s)));
             (resp, job, s') = handleDownloadClip url_ok clock
               (JsonValue \<lparr>url = Some u, start_time = Some st, end_time = Some et\<rparr>) s
         in resp = \<lparr>status_code = 200,
                    body = Queued downloadId (downloadId @ ''.mp4'')
                             (''/api/download-file/'' @ downloadId @ ''.mp4'')\<rparr> \<and>
            job = Some \<lparr>job_id = downloadId, job_url = u, startSeconds = start,
                        endSeconds = end'\<rparr> \<and>
            downloadProgress s' downloadId =
              Some \<lparr>status = downloading, progress = 0, message = ''Starting download...'',
                    filename = None, download_url = None\<rparr> \<and>
            writes s' = writes s @ [(downloadId,
              \<lparr>status = downloading, progress = 0, message = ''Starting download...'',
                    filename = None, download_url = None\<rparr>)]"
  using assms js_lt_not_ge[OF assms(6)]
  by (simp add: handleDownloadClip_def ClipRequestSchema_def Let_def store_set_def)

theorem handleDownloadClip_accepts_witness:
  "handleDownloadClip (\<lambda>_. True) (\<lambda>_. (''2026-11-03T07:14:00.000Z'', ''0a1b2c3d''))
     (JsonValue \<lparr>url = Some ''https://youtu.be/x'', start_time = Some ''0:10'',
                 end_time = Some ''0:40''\<rparr>) empty_server =
   (\<lparr>status_code = 200,
     body = Queued ''clip_20261103071400._0a1b2c3d'' ''clip_20261103071400._0a1b2c3d.mp4''
              ''/api/download-file/clip_20261103071400._0a1b2c3d.mp4''\<rparr>,
    Some \<lparr>job_id = ''clip_20261103071400._0a1b2c3d'', job_url = ''https://youtu.be/x'',
          startSeconds = Fin 10, endSeconds = Fin 40\<rparr>,
    store_set ''clip_20261103071400._0a1b2c3d''
      \<lparr>status = downloading, progress = 0, message = ''Starting download...'',
        filename = None, download_url = None\<rparr> (empty_server\<lparr>generated := 1\<rparr>))"
proof -
  have a: "js_lt (Fin 10) (Fin 40)" by simp
  have b: "\<not> js_gt (js_sub (Fin 40) (Fin 10)) (Fin 600)"
    by (simp add: js_gt_def js_sub_def round_double_small)
  have g: "generateId ''2026-11-03T07:14:00.000Z'' ''0a1b2c3d'' = ''clip_20261103071400._0a1b2c3d''"
    by (simp add: generateId_def)
  show ?thesis
    using handleDownloadClip_accepts[of "\<lambda>_. True" "''https://youtu.be/x''" "''0:10''" "''0:40''"
        "Fin 10" "Fin 40" "\<lambda>_. (''2026-11-03T07:14:00.000Z'', ''0a1b2c3d'')" empty_server,
        OF _ time_examples(4) time_examples(5) time_examples(1) time_examples(2) a b]
    by (simp add: handleDownloadClip_def ClipRequestSchema_def Let_def time_examples js_ge_def
        js_gt_def js_sub_def round_double_small g empty_server_def)
qed

section \<open>Publishing to observers\<close>

lemma send_loop:
  "foldl (\<lambda>s' ws. if ws_open s' ws then ws_send ws m s' else s') s xs =
     s\<lparr>sent := sent s @ map (\<lambda>w. (w, m)) (filter (ws_open s) xs)\<rparr>"
proof (induction xs arbitrary: s)
  case Nil
  then show ?case by simp
next
  case (Cons x xs)
  show ?case by (simp add: Cons ws_send_def)
qed

lemma broadcastProgress_eq:
  "broadcastProgress downloadId s =
     s\<lparr>sent := sent s @
        (case downloadProgress s downloadId of
           None \<Rightarrow> []
         | Some p \<Rightarrow>
             (case clients s downloadId of
                None \<Rightarrow> []
              | Some cs \<Rightarrow>
                  map (\<lambda>w. (w, progress_msg downloadId p))
                    (filter (ws_open s) (set_values cs))))\<rparr>"
  by (simp add: broadcastProgress_def send_loop progress_msg_def split: option.splits)

lemma broadcastProgress_fields [simp]:
  "downloadProgress (broadcastProgress i s) = downloadProgress s"
  "clients (broadcastProgress i s) = clients s"
  "ws_open (broadcastProgress i s) = ws_open s"
  "generated (broadcastProgress i s) = generated s"
  "writes (broadcastProgress i s) = writes s"
  by (simp_all add: broadcastProgress_eq)

lemma distinct_set_values: "distinct (set_values cs)"
  using set_values [of cs] by simp

lemma filter_eq_distinct:
  "distinct xs \<Longrightarrow> filter (\<lambda>w. w = x \<and> P w) xs = (if x \<in> set xs \<and> P x then [x] else [])"
proof (induction xs)
  case Nil
  then show ?case by simp
next
  case (Cons a xs)
  then show ?case by (auto simp: filter_empty_conv)
qed

lemma deliveries_to_one:
  assumes "distinct xs"
  shows "map snd (filter (\<lambda>e. fst e = ws) (map (\<lambda>w. (w, m)) (filter P xs))) =
      (if ws \<in> set xs \<and> P ws then [m] else [])"
proof -
  have "filter (\<lambda>e. fst e = ws) (map (\<lambda>w. (w, m)) (filter P xs)) =
      map (\<lambda>w. (w, m)) (filter (\<lambda>w. w = ws \<and> P w) xs)"
    by (simp add: filter_map comp_def conj_commute)
  then show ?thesis using assms by (simp add: filter_eq_distinct)
qed

lemma inbox_broadcastProgress:
  "inbox (broadcastProgress downloadId s) ws =
     inbox s ws @
       (case downloadProgress s downloadId of
          None \<Rightarrow> []
        | Some p \<Rightarrow>
            if attached s downloadId ws \<and> ws_open s ws
            then [progress_msg downloadId p] else [])"
proof (cases "downloadProgress s downloadId")
  case None
  then show ?thesis by (simp add: broadcastProgress_eq inbox_def)
next
  case (Some p)
  show ?thesis
  proof (cases "clients s downloadId")
    case None
    then show ?thesis using Some by (simp add: broadcastProgress_eq inbox_def attached_def)
  next
    case (Some cs)
    have "inbox (broadcastProgress downloadId s) ws =
        inbox s ws @ map snd (filter (\<lambda>e. fst e = ws)
          (map (\<lambda>w. (w, progress_msg downloadId p)) (filter (ws_open s) (set_values cs))))"
      using Some \<open>downloadProgress s downloadId = Some p\<close>
      by (simp add: broadcastProgress_eq inbox_def)
    also have "\<dots> = inbox s ws @
        (if ws \<in> set (set_values cs) \<and> ws_open s ws then [progress_msg downloadId p] else [])"
      by (simp only: deliveries_to_one [OF distinct_set_values])
    finally show ?thesis
      using Some \<open>downloadProgress s downloadId = Some p\<close>
      by (simp add: attached_def set_has_def)
  qed
qed

lemma inbox_websocket_close [simp]: "inbox (websocket_close ws s) w = inbox s w"
  by (simp add: websocket_close_def inbox_def split: option.splits)

lemma inbox_websocket_open [simp]: "inbox (websocket_open ws s) w = inbox s w"
  by (simp add: websocket_open_def inbox_def Let_def split: option.splits)

lemma attached_websocket_open:
  "id_param ws = Some downloadId \<Longrightarrow> downloadId \<noteq> [] \<Longrightarrow>
     attached (websocket_open ws s) downloadId ws"
  by (auto simp: websocket_open_def attached_def set_has_def Let_def set_add.rep_eq
      set_empty.rep_eq split: option.splits)

lemma not_attached_websocket_close:
  "id_param ws = Some downloadId \<Longrightarrow> downloadId \<noteq> [] \<Longrightarrow>
     \<not> attached (websocket_close ws s) downloadId ws"
  by (auto simp: websocket_close_def attached_def set_has_def set_delete.rep_eq
      split: option.splits)

lemma websocket_close_fields [simp]:
  "downloadProgress (websocket_close ws s) = downloadProgress s"
  "ws_open (websocket_close ws s) = ws_open s"
  by (simp_all add: websocket_close_def split: option.splits)

text \<open>
  C5. A publish on a job id sends the current record once to every connection that is
  attached to the id and open, and nothing to any other connection: one that was never
  attached to the id, one that was detached before the publish, one that is no longer
  open. Without attached observers the publish changes nothing and raises no error.
\<close>

theorem broadcastProgress_delivery:
  "inbox (broadcastProgress downloadId s) ws =
     inbox s ws @
       (case downloadProgress s downloadId of
          None \<Rightarrow> []
        | Some p \<Rightarrow>
            if attached s downloadId ws \<and> ws_open s ws
            then [progress_msg downloadId p] else []) \<and>
   (id_param ws = Some downloadId \<and> downloadId \<noteq> [] \<longrightarrow>
      attached (websocket_open ws s) downloadId ws \<and>
      \<not> attached (websocket_close ws s) downloadId ws \<and>
      inbox (broadcastProgress downloadId (websocket_close ws s)) ws = inbox s ws) \<and>
   ((\<forall>w. \<not> attached s downloadId w) \<longrightarrow> broadcastProgress downloadId s = s)"
proof (intro conjI impI)
  show "inbox (broadcastProgress downloadId s) ws =
     inbox s ws @
       (case downloadProgress s downloadId of
          None \<Rightarrow> []
        | Some p \<Rightarrow>
            if attached s downloadId ws \<and> ws_open s ws
            then [progress_msg downloadId p] else [])"
    by (rule inbox_broadcastProgress)
next
  assume a: "id_param ws = Some downloadId \<and> downloadId \<noteq> []"
  then show "attached (websocket_open ws s) downloadId ws"
    by (simp add: attached_websocket_open)
  from a show "\<not> attached (websocket_close ws s) downloadId ws"
    by (simp add: not_attached_websocket_close)
  from a show "inbox (broadcastProgress downloadId (websocket_close ws s)) ws = inbox s ws"
    by (simp add: inbox_broadcastProgress not_attached_websocket_close split: option.splits)
next
  assume n: "\<forall>w. \<not> attached s downloadId w"
  have "filter (ws_open s) (set_values cs) = []" if "clients s downloadId = Some cs" for cs
    using n that by (auto simp: attached_def set_has_def filter_empty_conv)
  then show "broadcastProgress downloadId s = s"
    by (simp add: broadcastProgress_eq split: option.splits)
qed

lemma observed_server_simps:
  "downloadProgress observed_server ''job1'' = Some starting_record"
  "downloadProgress observed_server ''job3'' = Some starting_record"
  "attached observed_server ''job1'' observer_a"
  "attached observed_server ''job1'' observer_b"
  "\<not> attached observed_server ''job1'' observer_c"
  "\<forall>w. \<not> attached observed_server ''job3'' w"
  "ws_open observed_server observer_a" "\<not> ws_open observed_server observer_b"
  "inbox observed_server w = []"
  by (simp_all add: observed_server_def websocket_open_def store_set_def empty_server_def
      observer_a_def observer_b_def observer_c_def attached_def set_has_def Let_def
      set_add.rep_eq set_empty.rep_eq inbox_def)

theorem broadcastProgress_delivery_witness:
  "inbox (broadcastProgress ''job1'' observed_server) observer_a =
     [progress_msg ''job1'' starting_record] \<and>
   inbox (broadcastProgress ''job1'' observed_server) observer_b = [] \<and>
   inbox (broadcastProgress ''job1'' observed_server) observer_c = [] \<and>
   inbox (broadcastProgress ''job1'' (websocket_close observer_a observed_server)) observer_a = [] \<and>
   broadcastProgress ''job3'' observed_server = observed_server"
  using broadcastProgress_delivery [of "''job1''" observed_server observer_a]
    broadcastProgress_delivery [of "''job1''" observed_server observer_b]
    broadcastProgress_delivery [of "''job1''" observed_server observer_c]
    broadcastProgress_delivery [of "''job3''" observed_server observer_c]
  by (simp add: observed_server_simps) (simp add: observer_a_def)

section \<open>What a job writes and publishes\<close>

lemma store_set_fields [simp]:
  "downloadProgress (store_set i r s) = (downloadProgress s)(i \<mapsto> r)"
  "clients (store_set i r s) = clients s"
  "ws_open (store_set i r s) = ws_open s"
  "generated (store_set i r s) = generated s"
  "writes (store_set i r s) = writes s @ [(i, r)]"
  "sent (store_set i r s) = sent s"
  "inbox (store_set i r s) w = inbox s w"
  "attached (store_set i r s) j w = attached s j w"
  by (simp_all add: store_set_def inbox_def attached_def)

lemma attached_broadcastProgress [simp]:
  "attached (broadcastProgress i s) j w = attached s j w"
  by (simp add: attached_def)

lemma publish_write:
  "broadcastProgress i (store_set i r s) =
     s\<lparr>downloadProgress := (downloadProgress s)(i \<mapsto> r),
       writes := writes s @ [(i, r)],
       sent := sent s @ (case clients s i of None \<Rightarrow> []
                 | Some cs \<Rightarrow> map (\<lambda>w. (w, progress_msg i r)) (filter (ws_open s) (set_values cs)))\<rparr>"
  by (simp add: broadcastProgress_eq store_set_def split: option.splits)

lemma inbox_publish_write:
  "inbox (broadcastProgress i (store_set i r s)) ws =
     inbox s ws @ (if attached s i ws \<and> ws_open s ws then [progress_msg i r] else [])"
  by (simp add: inbox_broadcastProgress)

lemma published_refl: "published i [] s s"
  by (simp add: published_def)

lemma published_step:
  assumes "published i rs s s'"
  shows "published i (rs @ [r]) s (broadcastProgress i (store_set i r s'))"
proof -
  have a: "attached s' i ws = attached s i ws" for ws
    using assms by (simp add: published_def attached_def)
  show ?thesis
    using assms by (auto simp: published_def inbox_publish_write a)
qed

lemma published_trans:
  assumes "published i rs s s'" "published i rs' s' s''"
  shows "published i (rs @ rs') s s''"
proof -
  have a: "attached s' i ws = attached s i ws" for ws
    using assms(1) by (simp add: published_def attached_def)
  show ?thesis
    using assms by (auto simp: published_def a)
qed

lemma reported_simps [simp]:
  "reported lib [] = []"
  "reported lib (xs @ ys) = reported lib xs @ reported lib ys"
  "reported lib (c # xs) =
     (case find_percent c of
        None \<Rightarrow> reported lib xs
      | Some m \<Rightarrow> parseFloat lib m # reported lib xs)"
  by (simp_all add: reported_def split: option.splits)

lemma on_stderr_data_simps:
  "find_percent c = None \<Longrightarrow> on_stderr_data lib i c s = s"
  "find_percent c = Some m \<Longrightarrow>
     on_stderr_data lib i c s =
       broadcastProgress i (store_set i (downloading_record lib (parseFloat lib m)) s)"
  by (simp_all add: on_stderr_data_def downloading_record_def Let_def)

lemma stderr_loop_published:
  "published i (map (downloading_record lib) (reported lib chunks)) s
     (foldl (\<lambda>s' chunk. on_stderr_data lib i chunk s') s chunks)"
proof (induction chunks rule: rev_induct)
  case Nil
  then show ?case by (simp add: published_refl)
next
  case (snoc c chunks)
  let ?s1 = "foldl (\<lambda>s' chunk. on_stderr_data lib i chunk s') s chunks"
  have f: "foldl (\<lambda>s' chunk. on_stderr_data lib i chunk s') s (chunks @ [c]) =
      on_stderr_data lib i c ?s1" by simp
  show ?case
  proof (cases "find_percent c")
    case None
    then show ?thesis using snoc unfolding f by (simp add: on_stderr_data_simps)
  next
    case (Some m)
    let ?p = "parseFloat lib m"
    have "published i (map (downloading_record lib) (reported lib chunks) @
          [downloading_record lib ?p]) s
        (broadcastProgress i (store_set i (downloading_record lib ?p) ?s1))"
      by (rule published_step [OF snoc])
    then show ?thesis
      using Some unfolding f by (simp add: on_stderr_data_simps)
  qed
qed

lemma runYTDLPWithProgress_published:
  "fst (runYTDLPWithProgress lib i chunks ending s) = download_result ending \<and>
   published i
     (map (downloading_record lib) (reported lib chunks) @
        (if ending = Closed (Some 0) then [processing_record] else []))
     s (snd (runYTDLPWithProgress lib i chunks ending s))"
proof -
  let ?s1 = "foldl (\<lambda>s' chunk. on_stderr_data lib i chunk s') s chunks"
  have loop: "published i (map (downloading_record lib) (reported lib chunks)) s ?s1"
    by (rule stderr_loop_published)
  show ?thesis
  proof (cases ending)
    case (ProcError m)
    then show ?thesis
      using loop by (simp add: runYTDLPWithProgress_def download_result_def)
  next
    case (Closed code)
    show ?thesis
    proof (cases "code = Some 0")
      case True
      have "published i (map (downloading_record lib) (reported lib chunks) @ [processing_record]) s
          (broadcastProgress i (store_set i processing_record ?s1))"
        by (rule published_step [OF loop])
      then show ?thesis
        using Closed True
        by (simp add: runYTDLPWithProgress_def download_result_def on_download_close_def
            processing_record_def)
    next
      case False
      then show ?thesis
        using Closed loop
        by (simp add: runYTDLPWithProgress_def download_result_def on_download_close_def)
    qed
  qed
qed

lemma download_result_Inr: "download_result ending = Inr u \<longleftrightarrow> ending = Closed (Some 0)"
  by (auto simp: download_result_def split: proc_end.splits)

lemma published_step2:
  "published i rs s s' \<Longrightarrow> rs' = rs @ [r] \<Longrightarrow>
     published i rs' s (broadcastProgress i (store_set i r s'))"
  using published_step by simp

lemma clip_job_try_download_failed:
  assumes "runYTDLPWithProgress lib (job_id job) (download_chunks run) (download_end run) s =
      (Inl e, s1)"
  shows "clip_job_try lib job run s = (Some (Inl e), s1)"
  using assms by (simp add: clip_job_try_def Let_def)

lemma clip_job_try_downloaded:
  assumes "runYTDLPWithProgress lib (job_id job) (download_chunks run) (download_end run) s =
      (Inr u, s1)"
  shows "clip_job_try lib job run s =
     (case runFFmpeg (cut_first run) (cut_retry run) of
        None \<Rightarrow> (None, broadcastProgress (job_id job) (store_set (job_id job) cutting_record s1))
      | Some (Inl e) \<Rightarrow>
          (Some (Inl e), broadcastProgress (job_id job) (store_set (job_id job) cutting_record s1))
      | Some (Inr _) \<Rightarrow>
          (Some (Inr ()),
           broadcastProgress (job_id job) (store_set (job_id job) (completed_record (job_id job))
             (broadcastProgress (job_id job) (store_set (job_id job) cutting_record s1)))))"
  using assms
  by (simp add: clip_job_try_def Let_def cutting_record_def completed_record_def
      split: option.splits sum.splits)

lemma clip_job_run_published:
  "published (job_id job) (job_records lib job run) s (snd (clip_job_run lib job run s)) \<and>
   fst (clip_job_run lib job run s) =
     (if download_end run = Closed (Some 0) \<and> runFFmpeg (cut_first run) (cut_retry run) = None
      then None else Some (Inr ()))"
proof -
  let ?i = "job_id job"
  let ?ds = "map (downloading_record lib) (reported lib (download_chunks run))"
  obtain res1 s1 where dd:
    "runYTDLPWithProgress lib ?i (download_chunks run) (download_end run) s = (res1, s1)"
    by (cases "runYTDLPWithProgress lib ?i (download_chunks run) (download_end run) s")
  have d: "res1 = download_result (download_end run)"
    "published ?i (?ds @ (if download_end run = Closed (Some 0) then [processing_record] else []))
       s s1"
    using runYTDLPWithProgress_published [of lib ?i "download_chunks run" "download_end run" s]
    unfolding dd by simp_all
  show ?thesis
  proof (cases res1)
    case (Inl e)
    obtain m where e: "e = Error m" by (cases e)
    have r: "download_result (download_end run) = Inl (Error m)" using d(1) Inl e by simp
    have n0: "download_end run \<noteq> Closed (Some 0)"
      using r download_result_Inr [of "download_end run"] by auto
    have p: "published ?i ?ds s s1" using d(2) n0 by simp
    have t: "clip_job_try lib job run s = (Some (Inl (Error m)), s1)"
      using clip_job_try_download_failed dd Inl e by simp
    have "published ?i (?ds @ [error_record m]) s
        (broadcastProgress ?i (store_set ?i (error_record m) s1))"
      by (rule published_step [OF p])
    then show ?thesis
      unfolding clip_job_run_def t job_records_def r using n0 by (simp add: error_record_def)
  next
    case (Inr u)
    then have r: "download_result (download_end run) = Inr u" using d(1) by simp
    then have c0: "download_end run = Closed (Some 0)" by (simp add: download_result_Inr)
    have p: "published ?i (?ds @ [processing_record]) s s1" using d(2) c0 by simp
    let ?s2 = "broadcastProgress ?i (store_set ?i cutting_record s1)"
    have p2: "published ?i (?ds @ [processing_record, cutting_record]) s ?s2"
      by (rule published_step2 [OF p]) simp
    note t = clip_job_try_downloaded [OF dd [unfolded Inr]]
    show ?thesis
    proof (cases "runFFmpeg (cut_first run) (cut_retry run)")
      case None
      show ?thesis
        unfolding clip_job_run_def t job_records_def r cut_records_def None
        using p2 c0 by simp
    next
      case (Some res)
      show ?thesis
      proof (cases res)
        case (Inl e)
        obtain m where e: "e = Error m" by (cases e)
        have "published ?i (?ds @ [processing_record, cutting_record, error_record m]) s
            (broadcastProgress ?i (store_set ?i (error_record m) ?s2))"
          by (rule published_step2 [OF p2]) simp
        then show ?thesis
          unfolding clip_job_run_def t job_records_def r cut_records_def Some Inl e
          by (simp add: error_record_def)
      next
        case (Inr v)
        have "published ?i (?ds @ [processing_record, cutting_record, completed_record ?i]) s
            (broadcastProgress ?i (store_set ?i (completed_record ?i) ?s2))"
          by (rule published_step2 [OF p2]) simp
        then show ?thesis
          unfolding clip_job_run_def t job_records_def r cut_records_def Some Inr
          by simp
      qed
    qed
  qed
qed

lemma written_between_published:
  "published i rs s s' \<Longrightarrow> written_between s s' = rs"
  by (simp add: published_def written_between_def comp_def)

lemma job_history: "written_between s (snd (clip_job_run lib job run s)) = job_records lib job run"
  using clip_job_run_published written_between_published by blast

section \<open>The history of a job\<close>

lemma terminal_simps [simp]:
  "\<not> terminal downloading" "\<not> terminal processing" "terminal completed" "terminal error"
  by (simp_all add: terminal_def)

lemma record_status [simp]:
  "status (downloading_record lib p) = downloading"
  "status processing_record = processing"
  "status cutting_record = processing"
  "status (completed_record i) = completed"
  "status (error_record m) = error"
  by (simp_all add: downloading_record_def processing_record_def cutting_record_def
      completed_record_def error_record_def)

lemma record_progress [simp]:
  "progress (downloading_record lib p) = download_progress p"
  "progress processing_record = 50"
  "progress cutting_record = 60"
  "progress (completed_record i) = 100"
  "progress (error_record m) = 0"
  by (simp_all add: downloading_record_def processing_record_def cutting_record_def
      completed_record_def error_record_def)

lemma cut_records_cases:
  "cut_records i first retry = [] \<or>
   (\<exists>m. cut_records i first retry = [error_record m]) \<or>
   cut_records i first retry = [completed_record i]"
  by (auto simp: cut_records_def split: option.splits sum.splits js_error.splits)

lemma job_records_cases:
  obtains (download_failed) m where
      "job_records lib job run =
         map (downloading_record lib) (reported lib (download_chunks run)) @ [error_record m]"
  | (unsettled)
      "job_records lib job run =
         map (downloading_record lib) (reported lib (download_chunks run)) @
           [processing_record, cutting_record]"
  | (cut_failed) m where
      "job_records lib job run =
         map (downloading_record lib) (reported lib (download_chunks run)) @
           [processing_record, cutting_record, error_record m]"
  | (finished)
      "job_records lib job run =
         map (downloading_record lib) (reported lib (download_chunks run)) @
           [processing_record, cutting_record, completed_record (job_id job)]"
proof (cases "download_result (download_end run)")
  case (Inl e)
  obtain m where "e = Error m" by (cases e)
  then show ?thesis using Inl download_failed by (simp add: job_records_def)
next
  case (Inr u)
  then have j: "job_records lib job run =
      map (downloading_record lib) (reported lib (download_chunks run)) @
        [processing_record, cutting_record] @
        cut_records (job_id job) (cut_first run) (cut_retry run)"
    by (simp add: job_records_def)
  from cut_records_cases [of "job_id job" "cut_first run" "cut_retry run"]
  show ?thesis
  proof (elim disjE exE)
    assume "cut_records (job_id job) (cut_first run) (cut_retry run) = []"
    then show ?thesis using j unsettled by simp
  next
    fix m assume "cut_records (job_id job) (cut_first run) (cut_retry run) = [error_record m]"
    then show ?thesis using j cut_failed by simp
  next
    assume "cut_records (job_id job) (cut_first run) (cut_retry run) =
        [completed_record (job_id job)]"
    then show ?thesis using j finished by simp
  qed
qed

text \<open>
  C4. In every run of the background job, for every behaviour of the tools, a record
  with status completed or error is the last record that the job writes; every write
  of the job goes to the record of its own id.
\<close>

theorem no_write_after_terminal:
  "(\<forall>r \<in> set (butlast (written_between s (snd (clip_job_run lib job run s)))).
      \<not> terminal (status r)) \<and>
   (\<forall>w \<in> set (drop (length (writes s)) (writes (snd (clip_job_run lib job run s)))).
      fst w = job_id job)"
proof
  show "\<forall>r \<in> set (butlast (written_between s (snd (clip_job_run lib job run s)))).
      \<not> terminal (status r)"
    unfolding job_history
    by (cases rule: job_records_cases [of lib job run])
       (auto simp: butlast_append)
  have "published (job_id job) (job_records lib job run) s
      (snd (clip_job_run lib job run s))"
    using clip_job_run_published by blast
  then show "\<forall>w \<in> set (drop (length (writes s))
      (writes (snd (clip_job_run lib job run s)))). fst w = job_id job"
    by (auto simp: published_def)
qed

lemma example_chunks:
  "find_percent ''[download]  80.0% of 5.00MiB'' = Some ''80.0''"
  "find_percent ''[download]  10.0% of 5.00MiB'' = Some ''10.0''"
  "find_percent ''[download]  10.0% of 1.00MiB'' = Some ''10.0''"
  "find_percent ''[download] 150.5% of 5.00MiB'' = Some ''150.5''"
  "find_percent ''[Merger] Merging formats'' = None"
  "find_percent ''[download] Destination: clip_temp.mkv'' = None"
  by (simp_all add: find_percent.simps percent_at_def is_digit_def code_unit_def)

lemma example_lib_values:
  "parseFloat example_lib ''10.0'' = Percent 10"
  "parseFloat example_lib ''20.0'' = Percent 20"
  "parseFloat example_lib ''80.0'' = Percent 80"
  "parseFloat example_lib ''150.5'' = Percent (301 / 2)"
  "toFixed1 example_lib (Percent 10) = ''10.0''"
  "toFixed1 example_lib (Percent 80) = ''80.0''"
  by (simp_all add: example_lib_def)

lemma two_reports_first: "find_percent two_reports = Some ''10.0''"
  by (simp add: two_reports_def find_percent.simps percent_at_def is_digit_def code_unit_def)

lemma example_job_records:
  "job_records example_lib example_job example_run =
     [downloading_record example_lib (Percent 80),
      downloading_record example_lib (Percent 10),
      processing_record, cutting_record, completed_record ''clip_20261103071400._0a1b2c3d'']"
  by (simp add: job_records_def example_run_def example_job_def download_result_def
      cut_records_def runFFmpeg_def example_chunks example_lib_values)

theorem no_write_after_terminal_witness:
  "map status (written_between example_started
       (snd (clip_job_run example_lib example_job example_run example_started))) =
     [downloading, downloading, processing, processing, completed] \<and>
   map fst (drop (length (writes example_started))
       (writes (snd (clip_job_run example_lib example_job example_run example_started)))) =
     replicate 5 (job_id example_job)"
proof -
  have p: "published (job_id example_job) (job_records example_lib example_job example_run)
      example_started (snd (clip_job_run example_lib example_job example_run example_started))"
    using clip_job_run_published by blast
  show ?thesis
    using no_write_after_terminal [of example_started example_lib example_job example_run] p
    by (simp add: job_history example_job_records published_def comp_def numeral_eq_Suc)
qed

lemma published_inbox:
  "published i rs s s' \<Longrightarrow>
     inbox s' ws = inbox s ws @ (if attached s i ws \<and> ws_open s ws then map (progress_msg i) rs else [])"
  by (simp add: published_def)

lemma published_last:
  "published i (rs @ [r]) s s' \<Longrightarrow> downloadProgress s' i = Some r"
  by (simp add: published_def)

text \<open>
  C7, as stated, fails: the handler takes one percentage from each chunk of the error
  stream, the first that the pattern matches. When a chunk holds two progress lines,
  10.0% and 20.0%, one record is written, with progress 5, and none for the 20.0%.
\<close>

theorem second_report_in_chunk_not_written:
  "str_includes two_reports ''10.0%'' \<and> str_includes two_reports ''20.0%'' \<and>
   written_between observed_server
       (on_stderr_data example_lib ''job1'' two_reports observed_server) =
     [\<lparr>status = downloading, progress = 5, message = ''Downloading... 10.0%'',
       filename = None, download_url = None\<rparr>]"
proof -
  have w: "written_between observed_server
       (on_stderr_data example_lib ''job1'' two_reports observed_server) =
     [\<lparr>status = downloading, progress = 5, message = ''Downloading... 10.0%'',
       filename = None, download_url = None\<rparr>]"
    by (simp add: on_stderr_data_simps(2) [OF two_reports_first] written_between_def
        downloading_record_def download_progress_def example_lib_values)
  have "str_includes two_reports ''10.0%''" "str_includes two_reports ''20.0%''"
    by (simp_all add: two_reports_def newline_def)
  then show ?thesis using w by simp
qed

text \<open>
  C7, as amended. In the download stage, for every chunk of the error stream in which
  the pattern finds a percentage, with p the number parsed from the first match, the
  handler writes the record with status downloading and progress
  min(floor(p * 0.5), 50) and publishes it; a chunk without a match changes nothing.
  When the downloader ends with exit code 0 the stage resolves, and the record
  processing, 50, "Processing video..." is written and published after the records of
  the chunks.
\<close>

theorem download_stage_writes:
  "(find_percent line = Some m \<and> parseFloat lib m = Percent r \<longrightarrow>
      (let rec = \<lparr>status = downloading, progress = min \<lfloor>r * (1 / 2)\<rfloor> 50,
                  message = ''Downloading... '' @ toFixed1 lib (Percent r) @ ''%'',
                  filename = None, download_url = None\<rparr>;
           s' = on_stderr_data lib i line s
       in downloadProgress s' i = Some rec \<and>
          written_between s s' = [rec] \<and>
          (\<forall>ws. inbox s' ws =
             inbox s ws @
               (if attached s i ws \<and> ws_open s ws then [progress_msg i rec] else [])))) \<and>
   (find_percent line = None \<longrightarrow> on_stderr_data lib i line s = s) \<and>
   (let recs = map (downloading_record lib) (reported lib chunks) @
                 [\<lparr>status = processing, progress = 50, message = ''Processing video...'',
                   filename = None, download_url = None\<rparr>];
        (res, s') = runYTDLPWithProgress lib i chunks (Closed (Some 0)) s
    in res = Inr () \<and>
       downloadProgress s' i = Some (last recs) \<and>
       written_between s s' = recs \<and>
       (\<forall>ws. inbox s' ws =
          inbox s ws @
            (if attached s i ws \<and> ws_open s ws then map (progress_msg i) recs else [])))"
proof (intro conjI impI)
  assume a: "find_percent line = Some m \<and> parseFloat lib m = Percent r"
  let ?rec = "downloading_record lib (Percent r)"
  have rec: "?rec = \<lparr>status = downloading, progress = min \<lfloor>r * (1 / 2)\<rfloor> 50,
                message = ''Downloading... '' @ toFixed1 lib (Percent r) @ ''%'',
                filename = None, download_url = None\<rparr>"
    by (simp add: downloading_record_def download_progress_def)
  have "published i ([] @ [?rec]) s (broadcastProgress i (store_set i ?rec s))"
    by (rule published_step [OF published_refl])
  then have one: "published i [?rec] s (on_stderr_data lib i line s)"
    using a by (simp add: on_stderr_data_simps)
  have "downloadProgress (on_stderr_data lib i line s) i = Some ?rec"
    "written_between s (on_stderr_data lib i line s) = [?rec]"
    "\<forall>ws. inbox (on_stderr_data lib i line s) ws =
       inbox s ws @ (if attached s i ws \<and> ws_open s ws then [progress_msg i ?rec] else [])"
    using one written_between_published [OF one] published_inbox [OF one]
    by (simp_all add: published_def)
  then show "let rec = \<lparr>status = downloading, progress = min \<lfloor>r * (1 / 2)\<rfloor> 50,
                  message = ''Downloading... '' @ toFixed1 lib (Percent r) @ ''%'',
                  filename = None, download_url = None\<rparr>;
           s' = on_stderr_data lib i line s
       in downloadProgress s' i = Some rec \<and>
          written_between s s' = [rec] \<and>
          (\<forall>ws. inbox s' ws =
             inbox s ws @
               (if attached s i ws \<and> ws_open s ws then [progress_msg i rec] else []))"
    unfolding rec Let_def by blast
next
  assume "find_percent line = None"
  then show "on_stderr_data lib i line s = s" by (simp add: on_stderr_data_simps)
next
  let ?recs = "map (downloading_record lib) (reported lib chunks) @ [processing_record]"
  let ?d = "runYTDLPWithProgress lib i chunks (Closed (Some 0)) s"
  have d: "fst ?d = Inr ()" "published i ?recs s (snd ?d)"
    using runYTDLPWithProgress_published [of lib i chunks "Closed (Some 0)" s]
    by (simp_all add: download_result_def)
  have "downloadProgress (snd ?d) i = Some (last ?recs)"
    "written_between s (snd ?d) = ?recs"
    "\<forall>ws. inbox (snd ?d) ws =
       inbox s ws @ (if attached s i ws \<and> ws_open s ws then map (progress_msg i) ?recs else [])"
    using published_last [OF d(2)] written_between_published [OF d(2)] published_inbox [OF d(2)]
    by simp_all
  then show "let recs = map (downloading_record lib) (reported lib chunks) @
                 [\<lparr>status = processing, progress = 50, message = ''Processing video...'',
                   filename = None, download_url = None\<rparr>];
        (res, s') = runYTDLPWithProgress lib i chunks (Closed (Some 0)) s
    in res = Inr () \<and>
       downloadProgress s' i = Some (last recs) \<and>
       written_between s s' = recs \<and>
       (\<forall>ws. inbox s' ws =
          inbox s ws @
            (if attached s i ws \<and> ws_open s ws then map (progress_msg i) recs else []))"
    using d(1) unfolding processing_record_def Let_def split_beta by blast
qed

theorem download_stage_writes_witness:
  "find_percent ''[download]  80.0% of 5.00MiB'' = Some ''80.0'' \<and>
   downloadProgress
       (on_stderr_data example_lib ''job1'' ''[download]  80.0% of 5.00MiB'' observed_server)
       ''job1'' =
     Some \<lparr>status = downloading, progress = 40, message = ''Downloading... 80.0%'',
           filename = None, download_url = None\<rparr> \<and>
   inbox (on_stderr_data example_lib ''job1'' ''[download]  80.0% of 5.00MiB'' observed_server)
       observer_a =
     [progress_msg ''job1''
        \<lparr>status = downloading, progress = 40, message = ''Downloading... 80.0%'',
         filename = None, download_url = None\<rparr>] \<and>
   on_stderr_data example_lib ''job1'' ''[Merger] Merging formats'' observed_server =
     observed_server \<and>
   map (\<lambda>r. (status r, progress r))
     (written_between observed_server
        (snd (runYTDLPWithProgress example_lib ''job1''
           [''[download]  80.0% of 5.00MiB'', ''[Merger] Merging formats'',
            ''[download] 150.5% of 5.00MiB'']
           (Closed (Some 0)) observed_server))) =
     [(downloading, 40), (downloading, 50), (processing, 50)]"
proof -
  note pf = example_lib_values
  have r: "reported example_lib [''[download]  80.0% of 5.00MiB'', ''[Merger] Merging formats'',
            ''[download] 150.5% of 5.00MiB''] = [Percent 80, Percent (301 / 2)]"
    by (simp add: example_chunks pf)
  show ?thesis
    using download_stage_writes [where line = "''[download]  80.0% of 5.00MiB''" and m = "''80.0''"
        and lib = example_lib and r = 80 and i = "''job1''" and s = observed_server
        and chunks = "[''[download]  80.0% of 5.00MiB'', ''[Merger] Merging formats'',
            ''[download] 150.5% of 5.00MiB'']"]
      download_stage_writes [where line = "''[Merger] Merging formats''"
        and lib = example_lib and i = "''job1''" and s = observed_server]
    by (simp add: Let_def split_beta observed_server_simps example_chunks pf r
        download_progress_def)
qed

lemma handler_started:
  assumes "handleDownloadClip url_ok clock req s = (resp, Some job, s1)"
  shows "writes s1 = writes s @ [(job_id job, starting_record)]"
  using assms
  by (auto simp: handleDownloadClip_def Let_def starting_record_def
      split: request_json.splits option.splits sum.splits js_error.splits if_splits)

lemma request_history:
  assumes "handleDownloadClip url_ok clock req s = (resp, Some job, s1)"
  shows "written_between s (snd (clip_job_run lib job run s1)) =
           starting_record # job_records lib job run"
proof -
  have "published (job_id job) (job_records lib job run) s1
      (snd (clip_job_run lib job run s1))"
    using clip_job_run_published by blast
  then have "writes (snd (clip_job_run lib job run s1)) =
      writes s @ (job_id job, starting_record) # map (Pair (job_id job)) (job_records lib job run)"
    using handler_started [OF assms] by (simp add: published_def)
  then show ?thesis by (simp add: written_between_def comp_def)
qed

lemma download_progress_le_50: "download_progress p \<le> 50"
  by (cases p) (simp_all add: download_progress_def)

lemma download_progress_nonneg: "percent_nonneg p \<Longrightarrow> 0 \<le> download_progress p"
  by (cases p) (simp_all add: download_progress_def percent_nonneg_def)

lemma download_progress_mono: "percent_le p q \<Longrightarrow> download_progress p \<le> download_progress q"
proof (cases p; cases q)
  fix a b assume "p = Percent a" "q = Percent b" "percent_le p q"
  then have "a * (1 / 2) \<le> b * (1 / 2)" by (simp add: percent_le_def)
  then have "\<lfloor>a * (1 / 2)\<rfloor> \<le> \<lfloor>b * (1 / 2)\<rfloor>" by (rule floor_mono)
  then show ?thesis
    using \<open>p = Percent a\<close> \<open>q = Percent b\<close> by (simp add: download_progress_def)
qed (simp_all add: download_progress_def percent_le_def)

lemma sorted_download_progress:
  "sorted_wrt percent_le ps \<Longrightarrow> sorted (map download_progress ps)"
  by (induction ps) (auto simp: download_progress_mono)

lemma takeWhile_downloading:
  "takeWhile (\<lambda>r. status r \<noteq> error) (map (downloading_record lib) ps @ rest) =
     map (downloading_record lib) ps @ takeWhile (\<lambda>r. status r \<noteq> error) rest"
  by (rule takeWhile_append2) auto

lemma sorted_history:
  assumes "sorted_wrt percent_le ps" "\<forall>p \<in> set ps. percent_nonneg p"
    and "sorted tl'" "\<forall>x \<in> set tl'. 50 \<le> x"
  shows "sorted (0 # map download_progress ps @ tl')"
  using assms sorted_download_progress [OF assms(1)]
  by (auto simp: sorted_append download_progress_nonneg
      intro: order_trans [OF download_progress_le_50])

text \<open>
  C3, as stated, fails: the handler writes floor(p * 0.5) for each percentage it reads
  without comparing it with the progress written before. When the downloader reports
  80.0% and then 10.0% (as it does when it starts on a second stream), the progress of
  the record goes from 40 down to 5 while the status is downloading.
\<close>

theorem progress_history_decreases:
  "snd (handleDownloadClip (\<lambda>_. True) example_clock example_request empty_server) =
     (Some example_job, example_started) \<and>
   map (\<lambda>r. (status r, progress r))
     (written_between empty_server
        (snd (clip_job_run example_lib example_job example_run example_started))) =
     [(downloading, 0), (downloading, 40), (downloading, 5), (processing, 50),
      (processing, 60), (completed, 100)]"
proof
  have t: "timeToSeconds ''0:10'' = Inr (Fin 10)" "timeToSeconds ''0:40'' = Inr (Fin 40)"
    "time_pattern ''0:10''" "time_pattern ''0:40''"
    by (simp_all add: time_examples)
  have g: "generateId ''2026-11-03T07:14:00.000Z'' ''0a1b2c3d'' = ''clip_20261103071400._0a1b2c3d''"
    by (simp add: generateId_def)
  show h: "snd (handleDownloadClip (\<lambda>_. True) example_clock example_request empty_server) =
     (Some example_job, example_started)"
    by (simp add: handleDownloadClip_def example_request_def ClipRequestSchema_def t js_ge_def
        js_gt_def js_sub_def round_double_small Let_def example_clock_def g example_job_def
        example_started_def starting_record_def empty_server_def)
  then have "handleDownloadClip (\<lambda>_. True) example_clock example_request empty_server =
      (fst (handleDownloadClip (\<lambda>_. True) example_clock example_request empty_server),
       Some example_job, example_started)"
    by (metis prod.collapse)
  from request_history [OF this]
  show "map (\<lambda>r. (status r, progress r))
     (written_between empty_server
        (snd (clip_job_run example_lib example_job example_run example_started))) =
     [(downloading, 0), (downloading, 40), (downloading, 5), (processing, 50),
      (processing, 60), (completed, 100)]"
    by (simp add: example_job_records starting_record_def download_progress_def)
qed

text \<open>
  C3, as amended. For every job and every sequence of progress events, the progress
  values written to the record of the job, from the record that the handler stores on,
  never exceed 50 while the status is downloading and never exceed 100; and when the
  percentages that the handler reads from the output of the downloader are
  non-decreasing (none is negative: the pattern has no sign), the progress values are
  non-decreasing as long as the status is not error.
\<close>

theorem progress_history_bounds:
  assumes "handleDownloadClip url_ok clock req s = (resp, Some job, s1)"
  shows "let h = written_between s (snd (clip_job_run lib job run s1)) in
           (\<forall>r \<in> set h. status r = downloading \<longrightarrow> progress r \<le> 50) \<and>
           (\<forall>r \<in> set h. progress r \<le> 100) \<and>
           (sorted_wrt percent_le (reported lib (download_chunks run)) \<and>
            (\<forall>p \<in> set (reported lib (download_chunks run)). percent_nonneg p) \<longrightarrow>
              sorted (map progress (takeWhile (\<lambda>r. status r \<noteq> error) h)))"
proof -
  let ?ps = "reported lib (download_chunks run)"
  have h: "written_between s (snd (clip_job_run lib job run s1)) =
      starting_record # job_records lib job run"
    by (rule request_history [OF assms])
  have le: "download_progress p \<le> 100" for p
    using download_progress_le_50 [of p] by linarith
  have st: "status starting_record = downloading" "progress starting_record = 0"
    by (simp_all add: starting_record_def)
  have comp: "progress \<circ> downloading_record lib = download_progress"
    by (simp add: fun_eq_iff)
  show ?thesis
    unfolding h Let_def
  proof (cases rule: job_records_cases [of lib job run])
    case (download_failed m)
    show "(\<forall>r \<in> set (starting_record # job_records lib job run).
             status r = downloading \<longrightarrow> progress r \<le> 50) \<and>
          (\<forall>r \<in> set (starting_record # job_records lib job run). progress r \<le> 100) \<and>
          (sorted_wrt percent_le ?ps \<and> (\<forall>p \<in> set ?ps. percent_nonneg p) \<longrightarrow>
            sorted (map progress (takeWhile (\<lambda>r. status r \<noteq> error)
              (starting_record # job_records lib job run))))"
      unfolding download_failed
      using sorted_history [of ?ps "[]"]
      by (auto simp: st takeWhile_downloading comp download_progress_le_50 le)
  next
    case unsettled
    show "(\<forall>r \<in> set (starting_record # job_records lib job run).
             status r = downloading \<longrightarrow> progress r \<le> 50) \<and>
          (\<forall>r \<in> set (starting_record # job_records lib job run). progress r \<le> 100) \<and>
          (sorted_wrt percent_le ?ps \<and> (\<forall>p \<in> set ?ps. percent_nonneg p) \<longrightarrow>
            sorted (map progress (takeWhile (\<lambda>r. status r \<noteq> error)
              (starting_record # job_records lib job run))))"
      unfolding unsettled
      using sorted_history [of ?ps "[50, 60]"]
      by (auto simp: st takeWhile_downloading comp download_progress_le_50 le)
  next
    case (cut_failed m)
    show "(\<forall>r \<in> set (starting_record # job_records lib job run).
             status r = downloading \<longrightarrow> progress r \<le> 50) \<and>
          (\<forall>r \<in> set (starting_record # job_records lib job run). progress r \<le> 100) \<and>
          (sorted_wrt percent_le ?ps \<and> (\<forall>p \<in> set ?ps. percent_nonneg p) \<longrightarrow>
            sorted (map progress (takeWhile (\<lambda>r. status r \<noteq> error)
              (starting_record # job_records lib job run))))"
      unfolding cut_failed
      using sorted_history [of ?ps "[50, 60]"]
      by (auto simp: st takeWhile_downloading comp download_progress_le_50 le)
  next
    case finished
    show "(\<forall>r \<in> set (starting_record # job_records lib job run).
             status r = downloading \<longrightarrow> progress r \<le> 50) \<and>
          (\<forall>r \<in> set (starting_record # job_records lib job run). progress r \<le> 100) \<and>
          (sorted_wrt percent_le ?ps \<and> (\<forall>p \<in> set ?ps. percent_nonneg p) \<longrightarrow>
            sorted (map progress (takeWhile (\<lambda>r. status r \<noteq> error)
              (starting_record # job_records lib job run))))"
      unfolding finished
      using sorted_history [of ?ps "[50, 60, 100]"]
      by (auto simp: st takeWhile_downloading comp download_progress_le_50 le)
  qed
qed

lemma example_handler:
  "handleDownloadClip (\<lambda>_. True) example_clock example_request empty_server =
     (\<lparr>status_code = 200,
       body = Queued ''clip_20261103071400._0a1b2c3d'' ''clip_20261103071400._0a1b2c3d.mp4''
                ''/api/download-file/clip_20261103071400._0a1b2c3d.mp4''\<rparr>,
      Some example_job, example_started)"
proof -
  have g: "generateId ''2026-11-03T07:14:00.000Z'' ''0a1b2c3d'' = ''clip_20261103071400._0a1b2c3d''"
    by (simp add: generateId_def)
  show ?thesis
    by (simp add: handleDownloadClip_def example_request_def ClipRequestSchema_def time_examples
        js_ge_def js_gt_def js_sub_def round_double_small Let_def example_clock_def g
        example_job_def example_started_def starting_record_def empty_server_def)
qed

theorem progress_history_bounds_witness:
  "sorted_wrt percent_le (reported example_lib (download_chunks monotone_run)) \<and>
   map (\<lambda>r. (status r, progress r))
     (written_between empty_server
        (snd (clip_job_run example_lib example_job monotone_run example_started))) =
     [(downloading, 0), (downloading, 5), (downloading, 40), (processing, 50),
      (processing, 60), (completed, 100)]"
proof -
  have j: "job_records example_lib example_job monotone_run =
     [downloading_record example_lib (Percent 10),
      downloading_record example_lib (Percent 80),
      processing_record, cutting_record, completed_record ''clip_20261103071400._0a1b2c3d'']"
    by (simp add: job_records_def monotone_run_def example_job_def download_result_def
        cut_records_def runFFmpeg_def example_chunks example_lib_values)
  have srt: "sorted_wrt percent_le (reported example_lib (download_chunks monotone_run))"
    by (simp add: monotone_run_def percent_le_def example_chunks example_lib_values)
  show ?thesis
    using progress_history_bounds [OF example_handler, of example_lib monotone_run] srt
    by (simp add: request_history [OF example_handler] j starting_record_def
        download_progress_def)
qed

lemma clip_job_run_failure_recorded:
  assumes "clip_job_try lib job run s = (Some (Inl (Error m)), s1)"
  shows "fst (clip_job_run lib job run s) = Some (Inr ()) \<and>
         downloadProgress (snd (clip_job_run lib job run s)) (job_id job) =
           Some \<lparr>status = error, progress = 0, message = m, filename = None,
                 download_url = None\<rparr> \<and>
         (\<forall>ws. inbox (snd (clip_job_run lib job run s)) ws =
            inbox s1 ws @
              (if attached s1 (job_id job) ws \<and> ws_open s1 ws
               then [progress_msg (job_id job)
                       \<lparr>status = error, progress = 0, message = m, filename = None,
                        download_url = None\<rparr>]
               else []))"
  using assms by (simp add: clip_job_run_def inbox_publish_write)

text \<open>
  C6 fails on one path. The first cutting process has an \<open>error\<close> listener that rejects
  the promise; the retry process has none. When the first attempt ends with a code
  other than 0 and the retry cannot be started, the promise of the cut stage is never
  settled, the \<open>catch\<close> block does not run, and the record stays at processing, 60,
  "Cutting video...".
\<close>

theorem retry_start_failure_not_recorded:
  "fst (clip_job_run example_lib example_job retry_error_run example_started) = None \<and>
   downloadProgress
       (snd (clip_job_run example_lib example_job retry_error_run example_started))
       (job_id example_job) =
     Some \<lparr>status = processing, progress = 60, message = ''Cutting video...'',
           filename = None, download_url = None\<rparr>"
proof -
  have j: "job_records example_lib example_job retry_error_run =
      [processing_record, cutting_record]"
    by (simp add: job_records_def retry_error_run_def download_result_def cut_records_def
        runFFmpeg_def)
  have p: "published (job_id example_job) ([processing_record] @ [cutting_record]) example_started
      (snd (clip_job_run example_lib example_job retry_error_run example_started))"
    using clip_job_run_published [of example_job example_lib retry_error_run example_started]
    by (simp add: j)
  have "fst (clip_job_run example_lib example_job retry_error_run example_started) = None"
    using clip_job_run_published [of example_job example_lib retry_error_run example_started]
    by (simp add: retry_error_run_def runFFmpeg_def)
  then show ?thesis
    using published_last [OF p] by (simp add: cutting_record_def)
qed

section \<open>Subtitles to plain text\<close>

subsection \<open>Tags, lines and first occurrences\<close>

lemma foldl_push_new: "foldl push_new [] xs = first_occurrences xs"
proof (induction xs rule: rev_induct)
  case Nil
  then show ?case by (simp add: first_occurrences_def)
next
  case (snoc x xs)
  have "set (first_occurrences xs) = set xs" by (simp add: first_occurrences_def)
  then show ?case
    using snoc by (simp add: push_new_def) (simp add: first_occurrences_def)
qed

lemma push_new_simps:
  "x \<notin> set acc \<Longrightarrow> push_new acc x = acc @ [x]"
  "x \<in> set acc \<Longrightarrow> push_new acc x = acc"
  by (simp_all add: push_new_def)

lemma tag_end_None_iff:
  "tag_end cs = None \<longleftrightarrow> cs = [] \<or> hd cs = CHR ''>'' \<or> CHR ''>'' \<notin> set cs"
proof (cases cs)
  case Nil
  then show ?thesis by (simp add: tag_end_def)
next
  case (Cons c cs')
  show ?thesis
  proof (cases "c = CHR ''>''")
    case True
    then show ?thesis using Cons by (simp add: tag_end_def)
  next
    case False
    have "dropWhile (\<lambda>c. c \<noteq> CHR ''>'') cs' = [] \<longleftrightarrow> CHR ''>'' \<notin> set cs'"
      by (auto simp: dropWhile_eq_Nil_conv)
    then show ?thesis using Cons False by (auto simp: tag_end_def Let_def)
  qed
qed

lemma tag_end_Some_set: "tag_end cs = Some rest \<Longrightarrow> set rest \<subseteq> set cs"
proof -
  assume "tag_end cs = Some rest"
  then have "rest = tl (dropWhile (\<lambda>c. c \<noteq> CHR ''>'') cs)"
    by (simp add: tag_end_def Let_def split: if_splits)
  then have "set rest \<subseteq> set (dropWhile (\<lambda>c. c \<noteq> CHR ''>'') cs)"
    by (metis list.set_sel(2) subsetI tl_Nil)
  then show ?thesis using set_dropWhileD by fastforce
qed

lemma set_removeTags: "set (removeTags s) \<subseteq> set s"
proof (induction s rule: removeTags.induct)
  case 1
  then show ?case by simp
next
  case (2 c cs)
  show ?case
  proof (cases "c = CHR ''<''")
    case False
    then show ?thesis using 2(3) by auto
  next
    case True
    show ?thesis
    proof (cases "tag_end cs")
      case None
      then show ?thesis using True 2(1) by auto
    next
      case (Some rest)
      then show ?thesis
        using True 2(2) [OF True Some] tag_end_Some_set [OF Some] by auto
    qed
  qed
qed

lemma removeTags_no_tag: "\<not> has_tag (removeTags s)"
proof (induction s rule: removeTags.induct)
  case 1
  then show ?case by simp
next
  case (2 c cs)
  show ?case
  proof (cases "c = CHR ''<''")
    case False
    then show ?thesis using 2(3) by simp
  next
    case True
    show ?thesis
    proof (cases "tag_end cs")
      case (Some rest)
      then show ?thesis using True 2(2) [OF True Some] by simp
    next
      case None
      then consider "cs = []" | "cs \<noteq> []" "hd cs = CHR ''>''" | "CHR ''>'' \<notin> set cs"
        using tag_end_None_iff by blast
      then have "tag_end (removeTags cs) = None"
      proof cases
        case 1
        then show ?thesis by (simp add: tag_end_def)
      next
        case 2
        then obtain cs' where "cs = CHR ''>'' # cs'" by (cases cs) auto
        then show ?thesis by (simp add: tag_end_None_iff)
      next
        case 3
        then have "CHR ''>'' \<notin> set (removeTags cs)" using set_removeTags by blast
        then show ?thesis by (simp add: tag_end_None_iff)
      qed
      then show ?thesis using True None 2(1) [OF True None] by simp
    qed
  qed
qed

lemma split_on_ne: "split_on c s \<noteq> []"
  by (induction s) (auto split: list.splits)

lemma split_on_no_sep_in_parts: "l \<in> set (split_on c s) \<Longrightarrow> c \<notin> set l"
proof (induction s arbitrary: l)
  case Nil
  then show ?case by simp
next
  case (Cons x xs)
  show ?case
  proof (cases "x = c")
    case True
    then show ?thesis using Cons by auto
  next
    case False
    obtain p ps where ps: "split_on c xs = p # ps"
      using split_on_ne [of c xs] by (cases "split_on c xs") auto
    then have "l = x # p \<or> l \<in> set ps" using Cons(2) False by simp
    then show ?thesis using Cons(1) ps False by auto
  qed
qed

lemma split_on_join:
  "xs \<noteq> [] \<Longrightarrow> \<forall>x \<in> set xs. c \<notin> set x \<Longrightarrow> split_on c (join c xs) = xs"
proof (induction xs rule: join.induct)
  case (1 sep)
  then show ?case by simp
next
  case (2 sep x)
  then show ?case by (simp add: split_on_no_sep)
next
  case (3 sep x y ys)
  then show ?case by (simp add: split_on_append)
qed

lemma set_trim: "set (trim s) \<subseteq> set s"
proof -
  have "set (trim s) \<subseteq> set (rev (dropWhile is_space s))"
    unfolding trim_def using set_dropWhileD by fastforce
  also have "\<dots> \<subseteq> set s" using set_dropWhileD by fastforce
  finally show ?thesis .
qed

lemma distinct_first_occurrences: "distinct (first_occurrences xs)"
  by (simp add: first_occurrences_def)

lemma set_first_occurrences: "set (first_occurrences xs) = set xs"
  by (simp add: first_occurrences_def)

lemma distinct_adjacent: "distinct xs \<Longrightarrow> Suc i < length xs \<Longrightarrow> xs ! i \<noteq> xs ! Suc i"
  by (simp add: nth_eq_iff_index_eq)

subsection \<open>The lines that the loop keeps\<close>

text \<open>
  The flag \<open>skipNext\<close> of the loop is true exactly when the nearest non-blank line
  before the current one is a pure number: this is \<open>after_number\<close> of the lines read so
  far.
\<close>

lemma after_number_snoc:
  "after_number (before @ [x]) =
     (if trim x = [] then after_number before else all_digits (trim x))"
  by (simp add: after_number_def Let_def)

lemma kept_at_prefix_end:
  "kept (before @ x # rest) (length before) =
     (trim x \<noteq> [] \<and> \<not> all_digits (trim x) \<and> \<not> str_includes (trim x) ''-->'' \<and>
      \<not> header_line (trim x) \<and> removeTags (trim x) \<noteq> [] \<and> \<not> after_number before)"
  by (simp add: kept_def Let_def)

lemma kept_from_Cons:
  "map (\<lambda>i. removeTags (trim ((before @ x # rest) ! i)))
       (filter (kept (before @ x # rest)) [length before ..< length before + length (x # rest)]) =
   (if kept (before @ x # rest) (length before) then [removeTags (trim x)] else []) @
   map (\<lambda>i. removeTags (trim (((before @ [x]) @ rest) ! i)))
       (filter (kept ((before @ [x]) @ rest))
          [length (before @ [x]) ..< length (before @ [x]) + length rest])"
proof -
  have u: "[length before ..< length before + length (x # rest)] =
      length before # [length (before @ [x]) ..< length (before @ [x]) + length rest]"
    by (subst upt_conv_Cons) (simp_all del: upt_Suc)
  have e: "(before @ [x]) @ rest = before @ x # rest" by simp
  show ?thesis unfolding u e by (simp del: upt_Suc)
qed

lemma convert_lines_kept:
  "convert_lines rest acc (after_number before) =
     foldl push_new acc
       (map (\<lambda>i. removeTags (trim ((before @ rest) ! i)))
          (filter (kept (before @ rest)) [length before ..< length before + length rest]))"
proof (induction rest arbitrary: before acc)
  case Nil
  then show ?case by simp
next
  case (Cons x rest)
  define K where "K = map (\<lambda>i. removeTags (trim (((before @ [x]) @ rest) ! i)))
       (filter (kept ((before @ [x]) @ rest))
          [length (before @ [x]) ..< length (before @ [x]) + length rest])"
  define t where "t = trim x"
  have ih: "convert_lines rest acc' (after_number (before @ [x])) = foldl push_new acc' K"
    for acc'
    unfolding K_def by (rule Cons)
  have step: "map (\<lambda>i. removeTags (trim ((before @ x # rest) ! i)))
       (filter (kept (before @ x # rest))
          [length before ..< length before + length (x # rest)]) =
     (if t \<noteq> [] \<and> \<not> all_digits t \<and> \<not> str_includes t ''-->'' \<and>
         \<not> header_line t \<and> removeTags t \<noteq> [] \<and> \<not> after_number before
      then [removeTags t] else []) @ K"
    using kept_from_Cons [of before x rest] unfolding kept_at_prefix_end K_def t_def .
  have flag: "after_number (before @ [x]) = (if t = [] then after_number before else all_digits t)"
    unfolding t_def by (rule after_number_snoc)
  have conv: "convert_lines (x # rest) acc (after_number before) =
     (if t = [] then convert_lines rest acc (after_number before)
      else if all_digits t then convert_lines rest acc True
      else if str_includes t ''-->'' \<or> after_number before then convert_lines rest acc False
      else if header_line t then convert_lines rest acc (after_number before)
      else if removeTags t \<noteq> [] \<and> removeTags t \<notin> set acc
        then convert_lines rest (acc @ [removeTags t]) (after_number before)
      else convert_lines rest acc (after_number before))"
    unfolding t_def header_line_def by (simp add: Let_def)
  have all_digits_ne: "all_digits t \<Longrightarrow> t \<noteq> []"
    by (simp add: all_digits_def)
  show ?case
  proof (cases "t = []")
    case True
    then show ?thesis
      unfolding conv step using ih [of acc] flag by simp
  next
    case ne: False
    show ?thesis
    proof (cases "all_digits t")
      case True
      then show ?thesis
        unfolding conv step using ne ih [of acc] flag by simp
    next
      case nd: False
      show ?thesis
      proof (cases "str_includes t ''-->'' \<or> after_number before")
        case True
        then show ?thesis
          unfolding conv step using ne nd ih [of acc] flag by auto
      next
        case na: False
        show ?thesis
        proof (cases "header_line t")
          case True
          then show ?thesis
            unfolding conv step using ne nd na ih [of acc] flag by simp
        next
          case nh: False
          show ?thesis
          proof (cases "removeTags t \<noteq> [] \<and> removeTags t \<notin> set acc")
            case True
            then show ?thesis
              unfolding conv step
              using ne nd na nh ih [of "acc @ [removeTags t]"] flag
              by (simp add: push_new_simps)
          next
            case False
            then show ?thesis
              unfolding conv step
              using ne nd na nh ih [of acc] flag
              by (auto simp add: push_new_simps)
          qed
        qed
      qed
    qed
  qed
qed

lemma convert_lines_first_occurrences:
  "convert_lines lines [] False = first_occurrences (kept_lines lines)"
proof -
  have "after_number [] = False" by (simp add: after_number_def)
  then have "convert_lines lines [] False = convert_lines lines [] (after_number [])" by simp
  also have "\<dots> = foldl push_new [] (kept_lines lines)"
    unfolding convert_lines_kept kept_lines_def by simp
  finally show ?thesis by (simp add: foldl_push_new)
qed

lemma kept_lines_origin:
  assumes "l \<in> set (kept_lines lines)"
  shows "\<exists>line \<in> set lines. l = removeTags (trim line) \<and> l \<noteq> [] \<and> \<not> all_digits (trim line) \<and>
        \<not> str_includes (trim line) ''-->''"
proof -
  from assms obtain i where i: "i < length lines" "kept lines i"
    and l: "l = removeTags (trim (lines ! i))"
    by (auto simp: kept_lines_def)
  have "lines ! i \<in> set lines" using i(1) by simp
  then show ?thesis using i(2) l by (auto simp: kept_def Let_def)
qed

lemma map_filter_index:
  "map f (filter Q xs) = map (\<lambda>i. f (xs ! i)) (filter (\<lambda>i. Q (xs ! i)) [0..<length xs])"
proof -
  have "map f (filter Q xs) = map f (filter Q (map ((!) xs) [0..<length xs]))"
    by (simp only: map_nth)
  also have "\<dots> = map (\<lambda>i. f (xs ! i)) (filter (\<lambda>i. Q (xs ! i)) [0..<length xs])"
    by (simp only: filter_map map_map comp_def)
  finally show ?thesis .
qed

lemma subseq_map_filter_imp:
  assumes "\<And>x. P x \<Longrightarrow> Q x"
  shows "subseq (map f (filter P xs)) (map f (filter Q xs))"
proof -
  have "filter P xs = filter P (filter Q xs)"
    using assms by (auto intro: filter_cong)
  then have "subseq (filter P xs) (filter Q xs)"
    by (metis subseq_filter_left)
  then show ?thesis by (rule subseq_map)
qed

lemma kept_lines_subseq_spec:
  "subseq (kept_lines (split_on newline content)) (spec_text_lines content)"
proof -
  let ?lines = "split_on newline content"
  let ?Q = "\<lambda>line. (\<not> all_digits (trim line) \<and> \<not> str_includes (trim line) ''-->'') \<and>
      removeTags (trim line) \<noteq> []"
  have "spec_text_lines content = map (\<lambda>line. removeTags (trim line)) (filter ?Q ?lines)"
    by (simp add: spec_text_lines_def filter_map comp_def conj_commute)
  also have "\<dots> = map (\<lambda>i. removeTags (trim (?lines ! i)))
      (filter (\<lambda>i. ?Q (?lines ! i)) [0..<length ?lines])"
    by (rule map_filter_index)
  finally have s: "spec_text_lines content = map (\<lambda>i. removeTags (trim (?lines ! i)))
      (filter (\<lambda>i. ?Q (?lines ! i)) [0..<length ?lines])" .
  show ?thesis
    unfolding s kept_lines_def
    by (rule subseq_map_filter_imp) (simp add: kept_def Let_def)
qed

lemma no_newline_in_kept:
  assumes "l \<in> set (kept_lines (split_on newline content))"
  shows "newline \<notin> set l"
proof -
  obtain line where line: "line \<in> set (split_on newline content)"
    and l: "l = removeTags (trim line)"
    using kept_lines_origin [OF assms] by blast
  have "newline \<notin> set line" using line by (rule split_on_no_sep_in_parts)
  then show ?thesis using l set_removeTags set_trim by blast
qed

subsection \<open>What the conversion returns\<close>

text \<open>
  C8, as amended. For every subtitle text, with \<open>lines\<close> its lines and \<open>out\<close> the lines of
  the converted text. A line is kept when, trimmed, it is not empty, is not a pure
  number, holds no timing arrow, does not start with WEBVTT, NOTE or STYLE, is not
  empty without its tags, and the nearest non-blank line before it is not a pure
  number. \<open>out\<close> lists the kept lines without their tags, each distinct line once, in the
  order of the first occurrences. The kept lines are, in their order, among the text
  lines in the reading of the specification. Every line of \<open>out\<close> is non-empty, holds no
  markup tag within the line, and is the cleaned form of an input line that is neither
  a pure number nor a line with a timing arrow; no two lines of \<open>out\<close> are equal, so
  repeated lines, immediately repeated or not, are collapsed.
\<close>

theorem convertSubtitleToText_lines:
  "let lines = split_on newline content; out = convert_lines lines [] False in
     convertSubtitleToText content = join newline out \<and>
     (if out = [] then convertSubtitleToText content = []
      else split_on newline (convertSubtitleToText content) = out) \<and>
     out = first_occurrences (kept_lines lines) \<and>
     subseq (kept_lines lines) (spec_text_lines content) \<and>
     (\<forall>l \<in> set out.
        l \<noteq> [] \<and> \<not> has_tag l \<and>
        (\<exists>line \<in> set lines. l = removeTags (trim line) \<and> \<not> all_digits (trim line) \<and>
           \<not> str_includes (trim line) ''-->'')) \<and>
     distinct out \<and>
     (\<forall>i. Suc i < length out \<longrightarrow> out ! i \<noteq> out ! Suc i)"
proof -
  let ?lines = "split_on newline content"
  let ?out = "convert_lines ?lines [] False"
  have out: "?out = first_occurrences (kept_lines ?lines)"
    by (rule convert_lines_first_occurrences)
  have d: "distinct ?out" unfolding out by (rule distinct_first_occurrences)
  have adj: "\<forall>i. Suc i < length ?out \<longrightarrow> ?out ! i \<noteq> ?out ! Suc i"
    using d distinct_adjacent by blast
  have origin: "\<forall>l \<in> set ?out.
        l \<noteq> [] \<and> \<not> has_tag l \<and>
        (\<exists>line \<in> set ?lines. l = removeTags (trim line) \<and> \<not> all_digits (trim line) \<and>
           \<not> str_includes (trim line) ''-->'')"
  proof
    fix l assume "l \<in> set ?out"
    then have "l \<in> set (kept_lines ?lines)"
      unfolding out by (simp add: set_first_occurrences)
    from kept_lines_origin [OF this]
    obtain line where "line \<in> set ?lines" "l = removeTags (trim line)" "l \<noteq> []"
      "\<not> all_digits (trim line)" "\<not> str_includes (trim line) ''-->''"
      by blast
    then show "l \<noteq> [] \<and> \<not> has_tag l \<and>
        (\<exists>line \<in> set ?lines. l = removeTags (trim line) \<and> \<not> all_digits (trim line) \<and>
           \<not> str_includes (trim line) ''-->'')"
      using removeTags_no_tag by blast
  qed
  have conv: "convertSubtitleToText content = join newline ?out"
    by (simp add: convertSubtitleToText_def)
  have relines: "if ?out = [] then convertSubtitleToText content = []
      else split_on newline (convertSubtitleToText content) = ?out"
  proof (cases "?out = []")
    case True
    then show ?thesis by (simp add: conv)
  next
    case False
    have "\<forall>l \<in> set ?out. newline \<notin> set l"
      unfolding out set_first_occurrences using no_newline_in_kept by blast
    then have "split_on newline (join newline ?out) = ?out"
      using False by (intro split_on_join) auto
    then show ?thesis using False by (simp add: conv)
  qed
  show ?thesis
    unfolding Let_def
    using conv relines out kept_lines_subseq_spec [of content] origin d adj
    by (intro conjI)
qed

lemmas subtitle_eval =
  trim_def is_space_def code_unit_def all_digits_def is_digit_def tag_end_def Let_def

lemma example_vtt_lines:
  "split_on newline example_vtt =
     [''WEBVTT'', '''', ''00:00:01.000 --> 00:00:02.000'', ''<c>Hello</c>'', '''',
      ''00:00:02.000 --> 00:00:03.500'', ''Hello'', '' <b>world</b> '', '''',
      ''7'', ''dropped'', ''Hello'']"
  unfolding example_vtt_def
  by (rule split_on_join) (simp_all add: newline_def)

lemma example_vtt_kept:
  "kept_lines (split_on newline example_vtt) = [''Hello'', ''Hello'', ''world'', ''Hello'']"
  unfolding example_vtt_lines
  by (simp add: kept_lines_def kept_def after_number_def header_line_def subtitle_eval)

theorem convertSubtitleToText_lines_witness:
  "kept_lines (split_on newline example_vtt) = [''Hello'', ''Hello'', ''world'', ''Hello''] \<and>
   convertSubtitleToText example_vtt = join newline [''Hello'', ''world'']"
proof -
  note t = convertSubtitleToText_lines [of example_vtt, unfolded Let_def]
  from t have "convert_lines (split_on newline example_vtt) [] False =
      first_occurrences (kept_lines (split_on newline example_vtt))"
    by (elim conjE)
  then have out: "convert_lines (split_on newline example_vtt) [] False = [''Hello'', ''world'']"
    unfolding example_vtt_kept by (simp add: first_occurrences_def)
  from t have "convertSubtitleToText example_vtt =
      join newline (convert_lines (split_on newline example_vtt) [] False)"
    by (rule conjunct1)
  then have "convertSubtitleToText example_vtt = join newline [''Hello'', ''world'']"
    unfolding out .
  with example_vtt_kept show ?thesis by (rule conjI)
qed

lemma numeric_cue_srt_lines:
  "split_on newline numeric_cue_srt =
     [''1'', ''00:00:01,000 --> 00:00:02,000'', ''2024'', ''Hello'', '''',
      ''2'', ''00:00:03,000 --> 00:00:04,000'', ''World'', '''',
      ''3'', ''00:00:05,000 --> 00:00:06,000'', ''Hello'']"
  unfolding numeric_cue_srt_def
  by (rule split_on_join) (simp_all add: newline_def)

lemma split_tag_text_lines: "split_on newline split_tag_text = [''a<b'', ''c>d'']"
  unfolding split_tag_text_def
  by (rule split_on_join) (simp_all add: newline_def)

text \<open>
  C8, as stated, fails. In a well-formed SRT text whose first cue has the text lines
  "2024" and "Hello", the line "2024" is taken for a sequence number and the line after
  it is dropped: of the text lines Hello, World, Hello, whose distinct lines in the
  order of first occurrence are Hello, World, the conversion returns World, Hello. Tags are removed line by line: a tag that is split over two
  lines stays in the converted text.
\<close>

theorem text_after_number_line_dropped:
  "spec_text_lines numeric_cue_srt = [''Hello'', ''World'', ''Hello''] \<and>
   first_occurrences (spec_text_lines numeric_cue_srt) = [''Hello'', ''World''] \<and>
   convertSubtitleToText numeric_cue_srt = join newline [''World'', ''Hello''] \<and>
   convertSubtitleToText split_tag_text = split_tag_text \<and> has_tag split_tag_text"
proof (intro conjI)
  show sp: "spec_text_lines numeric_cue_srt = [''Hello'', ''World'', ''Hello'']"
    unfolding spec_text_lines_def numeric_cue_srt_lines by (simp add: subtitle_eval)
  show "first_occurrences (spec_text_lines numeric_cue_srt) = [''Hello'', ''World'']"
    unfolding sp by (simp add: first_occurrences_def)
  have "convert_lines (split_on newline numeric_cue_srt) [] False = [''World'', ''Hello'']"
    unfolding numeric_cue_srt_lines by (simp add: subtitle_eval)
  then show "convertSubtitleToText numeric_cue_srt = join newline [''World'', ''Hello'']"
    by (simp only: convertSubtitleToText_def)
  have "convert_lines (split_on newline split_tag_text) [] False = [''a<b'', ''c>d'']"
    unfolding split_tag_text_lines by (simp add: subtitle_eval)
  then show "convertSubtitleToText split_tag_text = split_tag_text"
    by (simp only: convertSubtitleToText_def split_tag_text_def)
  show "has_tag split_tag_text"
    by (simp add: split_tag_text_def newline_def tag_end_def)
qed

end
